theory Spec2Isabelle
  imports Complex_Main
begin

section \<open>Boards, Python lists and errors\<close>

text \<open>
  The program \<^verbatim>\<open>auto-2048.py\<close> keeps the board as a list of four rows, each a list of
  four Python integers. Python integers are unbounded, so a tile is an \<open>int\<close>.
  A move mutates the board in place and returns a flag; here a move returns the flag
  together with the new board.

  Python raises \<^verbatim>\<open>IndexError\<close> on an index outside a list, \<^verbatim>\<open>ValueError\<close> on
  \<^verbatim>\<open>max\<close> of an empty collection, \<^verbatim>\<open>AttributeError\<close> on \<^verbatim>\<open>.values()\<close> of a float and
  \<^verbatim>\<open>OverflowError\<close> on a quotient of integers that is too large for a float.
  Each is a value of \<open>error\<close>, and a function that can raise returns \<open>error + 'a\<close>.
\<close>

type_synonym board = "int list list"

datatype error = IndexError | ValueError | AttributeError | OverflowError

text \<open>Reading \<^verbatim>\<open>xs[i]\<close>: a negative index counts from the end of the list.\<close>

definition py_get :: "'a list \<Rightarrow> int \<Rightarrow> error + 'a" where
  "py_get xs i =
     (if 0 \<le> i \<and> i < int (length xs) then Inr (xs ! nat i)
      else if i < 0 \<and> - int (length xs) \<le> i then Inr (xs ! nat (int (length xs) + i))
      else Inl IndexError)"

text \<open>Writing \<^verbatim>\<open>xs[i] = v\<close>, for the indices \<open>0 \<le> i\<close> that the program writes to.\<close>

definition py_set :: "'a list \<Rightarrow> int \<Rightarrow> 'a \<Rightarrow> error + 'a list" where
  "py_set xs i v =
     (if 0 \<le> i \<and> i < int (length xs) then Inr (xs[nat i := v]) else Inl IndexError)"

text \<open>Reading \<^verbatim>\<open>board[r][c]\<close>.\<close>

definition cell :: "board \<Rightarrow> int \<Rightarrow> int \<Rightarrow> error + int" where
  "cell board r c =
     (case py_get board r of Inl e \<Rightarrow> Inl e | Inr row \<Rightarrow> py_get row c)"

text \<open>
  A \<^verbatim>\<open>for\<close> loop over a list of indices that threads a state and stops at the first
  error, as a raised exception leaves the loop.
\<close>

fun for_each :: "('i \<Rightarrow> 's \<Rightarrow> error + 's) \<Rightarrow> 'i list \<Rightarrow> 's \<Rightarrow> error + 's" where
  "for_each body [] s = Inr s"
| "for_each body (i # rest) s =
     (case body i s of Inl e \<Rightarrow> Inl e | Inr s' \<Rightarrow> for_each body rest s')"

text \<open>\<^verbatim>\<open>range(4)\<close>\<close>

definition range4 :: "int list" where
  "range4 = [0, 1, 2, 3]"

text \<open>The shape every board of the program has: four rows of four cells.\<close>

definition wf_board :: "board \<Rightarrow> bool" where
  "wf_board b \<longleftrightarrow> length b = 4 \<and> list_all (\<lambda>row. length row = 4) b"

text \<open>The sum of all cells of a board.\<close>

definition board_sum :: "board \<Rightarrow> int" where
  "board_sum b = sum_list (map sum_list b)"


section \<open>Sliding and merging one row\<close>

text \<open>
  \<^verbatim>\<open>move_row_left\<close>: the \<^verbatim>\<open>while new_row:\<close> loop, with the list still to scan and the
  list \<^verbatim>\<open>merged\<close> built so far as its state.
\<close>

function merge_loop :: "int list \<Rightarrow> int list \<Rightarrow> int list" where
  "merge_loop new_row merged =
     (if new_row \<noteq> [] then
        (if length new_row > 1 \<and> new_row ! 0 = new_row ! 1
         then merge_loop (drop 2 new_row) (merged @ [new_row ! 0 * 2])
         else merge_loop (drop 1 new_row) (merged @ [new_row ! 0]))
      else merged)"
  by pat_completeness auto
termination
  by (relation "measure (\<lambda>(new_row, merged). length new_row)") auto

declare merge_loop.simps [simp del]

definition move_row_left :: "int list \<Rightarrow> int list" where
  "move_row_left row =
     (let new_row = filter (\<lambda>cell. cell \<noteq> 0) row;
          merged = merge_loop new_row []
      in merged @ replicate (4 - length merged) 0)"


section \<open>Rotations\<close>

text \<open>
  \<^verbatim>\<open>zip(*rows)\<close>: the list of columns of \<open>rows\<close>, as many as the shortest row has
  cells, and none when there is no row.
\<close>

definition zip_star :: "'a list list \<Rightarrow> 'a list list" where
  "zip_star rows =
     (if rows = [] then []
      else map (\<lambda>i. map (\<lambda>row. row ! i) rows) [0..<min_list (map length rows)])"

definition rotate_board_clockwise :: "board \<Rightarrow> board" where
  "rotate_board_clockwise board = zip_star (rev board)"

definition rotate_board_counterclockwise :: "board \<Rightarrow> board" where
  "rotate_board_counterclockwise board = rev (zip_star board)"


section \<open>The four moves\<close>

text \<open>One pass of the loop of \<^verbatim>\<open>left\<close>; the state is the flag and the board.\<close>

definition left_row :: "int \<Rightarrow> bool \<times> board \<Rightarrow> error + bool \<times> board" where
  "left_row r st =
     (case st of (moved, board) \<Rightarrow>
        (case py_get board r of
           Inl e \<Rightarrow> Inl e
         | Inr row \<Rightarrow>
             let new_row = move_row_left row;
                 moved' = (if new_row \<noteq> row then True else moved)
             in (case py_set board r new_row of
                   Inl e \<Rightarrow> Inl e
                 | Inr board' \<Rightarrow> Inr (moved', board'))))"

definition left :: "board \<Rightarrow> error + bool \<times> board" where
  "left board = for_each left_row range4 (False, board)"

text \<open>\<^verbatim>\<open>board[r] = board[r][::-1]\<close>\<close>

definition reverse_row :: "int \<Rightarrow> board \<Rightarrow> error + board" where
  "reverse_row r board =
     (case py_get board r of Inl e \<Rightarrow> Inl e | Inr row \<Rightarrow> py_set board r (rev row))"

definition right :: "board \<Rightarrow> error + bool \<times> board" where
  "right board =
     (case for_each reverse_row range4 board of
        Inl e \<Rightarrow> Inl e
      | Inr b1 \<Rightarrow>
          (case left b1 of
             Inl e \<Rightarrow> Inl e
           | Inr (moved, b2) \<Rightarrow>
               (case for_each reverse_row range4 b2 of
                  Inl e \<Rightarrow> Inl e
                | Inr b3 \<Rightarrow> Inr (moved, b3))))"

definition up :: "board \<Rightarrow> error + bool \<times> board" where
  "up board =
     (case left (rotate_board_counterclockwise board) of
        Inl e \<Rightarrow> Inl e
      | Inr (moved, rotated) \<Rightarrow> Inr (moved, rotate_board_clockwise rotated))"

definition down :: "board \<Rightarrow> error + bool \<times> board" where
  "down board =
     (case left (rotate_board_clockwise board) of
        Inl e \<Rightarrow> Inl e
      | Inr (moved, rotated) \<Rightarrow> Inr (moved, rotate_board_counterclockwise rotated))"


section \<open>The heuristic\<close>

text \<open>
  Scores are Python floats. Their values are modelled as real numbers: a tile of the game
  divided by 2048 is a float without rounding, and the rounding of the sums and of the
  global factor is not modelled.

  The quotient \<^verbatim>\<open>x / 2048\<close> of two integers is the float nearest to the exact quotient,
  and Python raises \<^verbatim>\<open>OverflowError\<close> when that float would be \<open>2 ^ 1024\<close> or beyond.
  The largest float is \<open>2 ^ 1024 - 2 ^ 971\<close>, and a quotient rounds beyond it from
  \<open>2 ^ 1024 - 2 ^ 970\<close> on, which \<open>\<bar>x\<bar> / 2048\<close> reaches exactly when \<open>\<bar>x\<bar>\<close> reaches
  \<open>float_limit\<close>. Sums and products of floats never raise.
\<close>

definition float_limit :: int where
  "float_limit = 2 ^ 1035 - 2 ^ 981"

text \<open>\<^verbatim>\<open>normalize\<close>\<close>

definition normalize_tile :: "int \<Rightarrow> error + real" where
  "normalize_tile x =
     (if x \<noteq> 0 then
        (if float_limit \<le> \<bar>x\<bar> then Inl OverflowError else Inr (real_of_int x / 2048))
      else Inr 0)"

text \<open>
  The four local variables \<^verbatim>\<open>left\<close>, \<^verbatim>\<open>right\<close>, \<^verbatim>\<open>up\<close> and \<^verbatim>\<open>down\<close> of
  \<^verbatim>\<open>create_points\<close>, with the guards and index expressions of the source.
\<close>

definition nb_left :: "board \<Rightarrow> int \<Rightarrow> int \<Rightarrow> error + int" where
  "nb_left board r c = (if c > 0 then cell board r (c - 1) else Inr 0)"

definition nb_right :: "board \<Rightarrow> int \<Rightarrow> int \<Rightarrow> error + int" where
  "nb_right board r c = (if c < 3 then cell board r (c + 1) else Inr 0)"

definition nb_up :: "board \<Rightarrow> int \<Rightarrow> int \<Rightarrow> error + int" where
  "nb_up board r c = (if r < 3 then cell board (r + 1) c else Inr 0)"

definition nb_down :: "board \<Rightarrow> int \<Rightarrow> int \<Rightarrow> error + int" where
  "nb_down board r c = (if r < 3 then cell board (r - 1) c else Inr 0)"

text \<open>
  The four \<^verbatim>\<open>if\<close> statements of \<^verbatim>\<open>create_points\<close> for a cell of value \<open>v\<close>, run in
  order; each one that fires overwrites the entry, which starts at 0, and the first call
  of \<^verbatim>\<open>normalize\<close> that raises ends the run.
\<close>

definition cell_points :: "int \<Rightarrow> int \<Rightarrow> int \<Rightarrow> int \<Rightarrow> int \<Rightarrow> error + real" where
  "cell_points v lft rgt upv dwn =
     (case (if lft < v \<or> rgt > v \<or> upv \<le> v \<or> dwn \<ge> v then normalize_tile v else Inr 0) of
        Inl e \<Rightarrow> Inl e
      | Inr p1 \<Rightarrow>
     (case (if lft < v \<and> rgt > v then normalize_tile (2 * v) else Inr p1) of
        Inl e \<Rightarrow> Inl e
      | Inr p2 \<Rightarrow>
     (case (if lft < v \<and> rgt > v \<and> upv \<le> v \<and> dwn \<ge> v
            then normalize_tile (3 * v) else Inr p2) of
        Inl e \<Rightarrow> Inl e
      | Inr p3 \<Rightarrow>
        (if lft < v \<and> rgt > v \<and> upv = v \<and> dwn = v
         then normalize_tile (6 * v) else Inr p3))))"

text \<open>The body of the two nested loops of \<^verbatim>\<open>create_points\<close>, on the matrix \<^verbatim>\<open>board_p\<close>.\<close>

definition points_step :: "board \<Rightarrow> int \<Rightarrow> int \<Rightarrow> real list list \<Rightarrow> error + real list list" where
  "points_step board r c board_p =
     (case cell board r c of
        Inl e \<Rightarrow> Inl e
      | Inr v \<Rightarrow>
          if v \<noteq> 0 then
            (case nb_left board r c of Inl e \<Rightarrow> Inl e | Inr lft \<Rightarrow>
             (case nb_right board r c of Inl e \<Rightarrow> Inl e | Inr rgt \<Rightarrow>
              (case nb_up board r c of Inl e \<Rightarrow> Inl e | Inr upv \<Rightarrow>
               (case nb_down board r c of Inl e \<Rightarrow> Inl e | Inr dwn \<Rightarrow>
                (case cell_points v lft rgt upv dwn of Inl e \<Rightarrow> Inl e | Inr p \<Rightarrow>
                   Inr (board_p[nat r := (board_p ! nat r)[nat c := p]]))))))
          else Inr board_p)"

definition create_points :: "board \<Rightarrow> error + real list list" where
  "create_points board =
     for_each (\<lambda>r. for_each (\<lambda>c. points_step board r c) range4) range4
       (replicate 4 (replicate 4 0))"

text \<open>
  The number of cells \<^verbatim>\<open>(r, c)\<close> with \<^verbatim>\<open>board[r][c] == v\<close>: the generators \<^verbatim>\<open>zeros\<close>
  and \<^verbatim>\<open>twos\<close> of \<^verbatim>\<open>get_points\<close>, counted.
\<close>

definition count_step :: "board \<Rightarrow> int \<Rightarrow> int \<Rightarrow> int \<Rightarrow> nat \<Rightarrow> error + nat" where
  "count_step board v r c n =
     (case cell board r c of Inl e \<Rightarrow> Inl e | Inr x \<Rightarrow> Inr (if x = v then n + 1 else n))"

definition count_cells :: "board \<Rightarrow> int \<Rightarrow> error + nat" where
  "count_cells board v =
     for_each (\<lambda>r. for_each (\<lambda>c. count_step board v r c) range4) range4 0"

definition get_points :: "board \<Rightarrow> error + real" where
  "get_points board =
     (case count_cells board 0 of Inl e \<Rightarrow> Inl e | Inr length_of_zeros \<Rightarrow>
      (case count_cells board 2 of Inl e \<Rightarrow> Inl e | Inr length_of_twos \<Rightarrow>
       (case create_points board of Inl e \<Rightarrow> Inl e | Inr board_p \<Rightarrow>
          Inr (fold (\<lambda>row points. points + sum_list row *
                 ((real length_of_zeros + 1 / 100) / (real length_of_twos + 1 / 100) / 10))
               board_p 0))))"


section \<open>The lookahead search\<close>

text \<open>
  \<^verbatim>\<open>evaluate_future_states\<close> returns a float at depth 0 and a dictionary otherwise.
  The dictionary keeps the order in which its keys were inserted, so it is a list of pairs.
\<close>

datatype result = Score real | Scores "(char \<times> real) list"

text \<open>\<^verbatim>\<open>max\<close> of a collection of floats\<close>

fun py_max :: "real list \<Rightarrow> error + real" where
  "py_max [] = Inl ValueError"
| "py_max (x # xs) = Inr (fold max xs x)"

text \<open>\<^verbatim>\<open>max(evaluate_future_states(board_copy, depth - 1).values())\<close>, given what the call returns\<close>

fun max_values :: "error + result \<Rightarrow> error + real" where
  "max_values (Inl e) = Inl e"
| "max_values (Inr (Score s)) = Inl AttributeError"
| "max_values (Inr (Scores move_scores)) = py_max (map snd move_scores)"

text \<open>
  \<^verbatim>\<open>move_scores[move] = get_points(board_copy) + future\<close>, where \<open>future\<close> is the
  conditional expression on the right of the sum.
\<close>

definition record_score ::
    "char \<Rightarrow> board \<Rightarrow> error + real \<Rightarrow> (char \<times> real) list \<Rightarrow> error + (char \<times> real) list" where
  "record_score move board_copy future move_scores =
     (case get_points board_copy of
        Inl e \<Rightarrow> Inl e
      | Inr points \<Rightarrow>
          (case future of
             Inl e \<Rightarrow> Inl e
           | Inr f \<Rightarrow> Inr (move_scores @ [(move, points + f)])))"

text \<open>
  The loop over the keys \<^verbatim>\<open>'w'\<close>, \<^verbatim>\<open>'a'\<close>, \<^verbatim>\<open>'s'\<close>, \<^verbatim>\<open>'d'\<close> runs one branch of the
  \<^verbatim>\<open>if\<close>/\<^verbatim>\<open>elif\<close> chain per key, each on its own copy of the board.
\<close>

function evaluate_future_states :: "board \<Rightarrow> int \<Rightarrow> error + result" where
  "evaluate_future_states board depth =
     (if depth = 0 then
        (case get_points board of Inl e \<Rightarrow> Inl e | Inr s \<Rightarrow> Inr (Score s))
      else
        (case (case up board of
                 Inl e \<Rightarrow> Inl e
               | Inr (moved, board_copy) \<Rightarrow>
                   if moved then
                     record_score (CHR ''w'') board_copy
                       (if depth > 1
                        then max_values (evaluate_future_states board_copy (depth - 1))
                        else Inr 0) []
                   else Inr []) of
           Inl e \<Rightarrow> Inl e
         | Inr scores_w \<Rightarrow>
        (case (case left board of
                 Inl e \<Rightarrow> Inl e
               | Inr (moved, board_copy) \<Rightarrow>
                   if moved then
                     record_score (CHR ''a'') board_copy
                       (if depth > 1
                        then max_values (evaluate_future_states board_copy (depth - 1))
                        else Inr 0) scores_w
                   else Inr scores_w) of
           Inl e \<Rightarrow> Inl e
         | Inr scores_a \<Rightarrow>
        (case (case down board of
                 Inl e \<Rightarrow> Inl e
               | Inr (moved, board_copy) \<Rightarrow>
                   if moved then
                     record_score (CHR ''s'') board_copy
                       (if depth > 1
                        then max_values (evaluate_future_states board_copy (depth - 1))
                        else Inr 0) scores_a
                   else Inr scores_a) of
           Inl e \<Rightarrow> Inl e
         | Inr scores_s \<Rightarrow>
        (case (case right board of
                 Inl e \<Rightarrow> Inl e
               | Inr (moved, board_copy) \<Rightarrow>
                   if moved then
                     record_score (CHR ''d'') board_copy
                       (if depth > 1
                        then max_values (evaluate_future_states board_copy (depth - 1))
                        else Inr 0) scores_s
                   else Inr scores_s) of
           Inl e \<Rightarrow> Inl e
         | Inr scores_d \<Rightarrow> Inr (Scores scores_d))))))"
  by pat_completeness auto
termination
  by (relation "measure (\<lambda>(board, depth). nat depth)") auto

declare evaluate_future_states.simps [simp del]


section \<open>Definitions used to state the properties\<close>

text \<open>
  The loop of \<^verbatim>\<open>move_row_left\<close> without its accumulator: the result for a compacted row.
\<close>

fun merge_tiles :: "int list \<Rightarrow> int list" where
  "merge_tiles [] = []"
| "merge_tiles [x] = [x]"
| "merge_tiles (x # y # rest) =
     (if x = y then (x * 2) # merge_tiles rest else x # merge_tiles (y # rest))"

text \<open>
  The merge step in the words of the specification: the compacted tiles are scanned from
  left to right, each tile merges with the tile before it when the two are equal, and a
  tile that a merge produced is not merged again. The flag says whether the last tile
  written came from a merge.
\<close>

fun scan_merge :: "int list \<Rightarrow> int list \<Rightarrow> bool \<Rightarrow> int list" where
  "scan_merge [] out last_merged = out"
| "scan_merge (t # ts) out last_merged =
     (if out \<noteq> [] \<and> \<not> last_merged \<and> last out = t
      then scan_merge ts (butlast out @ [t * 2]) True
      else scan_merge ts (out @ [t]) False)"

definition spec_move_row_left :: "int list \<Rightarrow> int list" where
  "spec_move_row_left row =
     (let out = scan_merge (filter (\<lambda>cell. cell \<noteq> 0) row) [] False
      in out @ replicate (4 - length out) 0)"


text \<open>Boards used as concrete inputs.\<close>

definition board_mixed :: board where
  "board_mixed = [[0, 2, 0, 0], [2, 2, 4, 4], [2, 0, 0, 0], [0, 0, 0, 0]]"



text \<open>The entry of the matrix that \<^verbatim>\<open>create_points\<close> returns for the cell in row \<open>r\<close> and column \<open>c\<close>.\<close>

definition contribution :: "board \<Rightarrow> nat \<Rightarrow> nat \<Rightarrow> error + real" where
  "contribution board r c =
     (case create_points board of Inl e \<Rightarrow> Inl e | Inr board_p \<Rightarrow> Inr (board_p ! r ! c))"

text \<open>
  The value of \<^verbatim>\<open>normalize\<close> and the entry that the four rules leave for a cell, when no
  quotient is too large for a float.
\<close>

definition share :: "int \<Rightarrow> real" where
  "share x = (if x \<noteq> 0 then real_of_int x / 2048 else 0)"

definition cell_value :: "int \<Rightarrow> int \<Rightarrow> int \<Rightarrow> int \<Rightarrow> int \<Rightarrow> real" where
  "cell_value v lft rgt upv dwn =
     (let p0 = 0;
          p1 = (if lft < v \<or> rgt > v \<or> upv \<le> v \<or> dwn \<ge> v then share v else p0);
          p2 = (if lft < v \<and> rgt > v then share (2 * v) else p1);
          p3 = (if lft < v \<and> rgt > v \<and> upv \<le> v \<and> dwn \<ge> v then share (3 * v) else p2);
          p4 = (if lft < v \<and> rgt > v \<and> upv = v \<and> dwn = v then share (6 * v) else p3)
      in p4)"

text \<open>
  What one pass of the loops of \<^verbatim>\<open>create_points\<close> leaves in the entry of a cell, given the
  entry before the pass.
\<close>

definition new_entry :: "board \<Rightarrow> int \<Rightarrow> int \<Rightarrow> real \<Rightarrow> real" where
  "new_entry b r c old =
     (if b ! nat r ! nat c \<noteq> 0
      then cell_value (b ! nat r ! nat c) (projr (nb_left b r c)) (projr (nb_right b r c))
             (projr (nb_up b r c)) (projr (nb_down b r c))
      else old)"

text \<open>
  A board on which no call of \<^verbatim>\<open>normalize\<close> can raise: the largest argument of a call is
  six times a cell.
\<close>

definition no_overflow :: "board \<Rightarrow> bool" where
  "no_overflow b = list_all (\<lambda>row. list_all (\<lambda>x. 6 * \<bar>x\<bar> < float_limit) row) b"

text \<open>The sum of the absolute values of all cells, which no move changes.\<close>

definition board_mass :: "board \<Rightarrow> int" where
  "board_mass b = sum_list (map (\<lambda>row. sum_list (map abs row)) b)"

text \<open>A board that stays free of overflow under every sequence of moves.\<close>

definition small_board :: "board \<Rightarrow> bool" where
  "small_board b \<longleftrightarrow> 6 * board_mass b < float_limit"

text \<open>A tile too large for \<^verbatim>\<open>normalize\<close>, and a board that holds it.\<close>

definition big_tile :: int where
  "big_tile = 2 ^ 1040"

definition board_big :: board where
  "board_big = [[big_tile, 0, 0, 0], [0, 0, 0, 0], [0, 0, 0, 0], [0, 0, 0, 0]]"

definition board_big_down :: board where
  "board_big_down = [[0, 0, 0, 0], [0, 0, 0, 0], [0, 0, 0, 0], [big_tile, 0, 0, 0]]"

definition board_c1 :: board where
  "board_c1 = [[0, 2, 0, 0], [8, 4, 2, 0], [0, 8, 0, 0], [0, 0, 0, 0]]"

definition board_wrap :: board where
  "board_wrap = [[4, 2, 0, 0], [0, 4, 0, 0], [0, 0, 0, 0], [0, 2, 0, 0]]"

definition board_no_wrap :: board where
  "board_no_wrap = [[4, 2, 0, 0], [0, 4, 0, 0], [0, 0, 0, 0], [0, 0, 0, 0]]"

definition board_row3 :: board where
  "board_row3 = [[0, 0, 0, 0], [0, 0, 0, 0], [0, 8, 0, 0], [0, 4, 0, 0]]"

definition board_2048 :: board where
  "board_2048 = [[0, 0, 0, 0], [0, 0, 2048, 0], [0, 0, 0, 0], [0, 0, 0, 0]]"


text \<open>
  One branch of the \<^verbatim>\<open>if\<close>/\<^verbatim>\<open>elif\<close> chain of \<^verbatim>\<open>evaluate_future_states\<close>, for the key
  \<open>move\<close> and what its move function returned on the copy of the board.
\<close>

definition branch ::
    "char \<Rightarrow> error + bool \<times> board \<Rightarrow> int \<Rightarrow> (char \<times> real) list \<Rightarrow> error + (char \<times> real) list" where
  "branch move res depth move_scores =
     (case res of
        Inl e \<Rightarrow> Inl e
      | Inr (moved, board_copy) \<Rightarrow>
          if moved then
            record_score move board_copy
              (if depth > 1
               then max_values (evaluate_future_states board_copy (depth - 1))
               else Inr 0) move_scores
          else Inr move_scores)"

text \<open>The entry that a branch adds to the dictionary when nothing raises.\<close>

definition entry :: "char \<Rightarrow> error + bool \<times> board \<Rightarrow> int \<Rightarrow> (char \<times> real) list" where
  "entry move res depth =
     (case res of
        Inl e \<Rightarrow> []
      | Inr (moved, board_copy) \<Rightarrow>
          if moved then
            [(move, projr (get_points board_copy) +
                (if depth > 1
                 then projr (max_values (evaluate_future_states board_copy (depth - 1)))
                 else 0))]
          else [])"

definition entries :: "board \<Rightarrow> int \<Rightarrow> (char \<times> real) list" where
  "entries board depth =
     entry (CHR ''w'') (up board) depth @ entry (CHR ''a'') (left board) depth @
     entry (CHR ''s'') (down board) depth @ entry (CHR ''d'') (right board) depth"

text \<open>The move function that belongs to a key.\<close>

definition move_of :: "char \<Rightarrow> board \<Rightarrow> error + bool \<times> board" where
  "move_of move =
     (if move = CHR ''w'' then up else if move = CHR ''a'' then left
      else if move = CHR ''s'' then down else right)"

text \<open>A direction is legal on a board when its move returns a board that differs from it.\<close>

definition changes :: "char \<Rightarrow> board \<Rightarrow> bool" where
  "changes move board =
     (case move_of move board of Inl e \<Rightarrow> False | Inr (moved, board') \<Rightarrow> board' \<noteq> board)"

text \<open>Some cell is empty; some cell holds a tile.\<close>

definition has_zero :: "board \<Rightarrow> bool" where
  "has_zero b = list_ex (\<lambda>row. list_ex (\<lambda>x. x = 0) row) b"

definition has_tile :: "board \<Rightarrow> bool" where
  "has_tile b = list_ex (\<lambda>row. list_ex (\<lambda>x. x \<noteq> 0) row) b"

text \<open>
  The boards of the data model: every cell is 0 or a power of two that is at least 2.
\<close>

definition tile_value :: "int \<Rightarrow> bool" where
  "tile_value x \<longleftrightarrow> x = 0 \<or> (\<exists>k \<in> {1 .. nat x}. x = 2 ^ k)"

definition valid_tiles :: "board \<Rightarrow> bool" where
  "valid_tiles b = list_all (\<lambda>row. list_all tile_value row) b"




section \<open>Properties of one row\<close>

lemma length4E: "length xs = 4 \<Longrightarrow> \<exists>a b c d. xs = [a, b, c, d]"
  by (auto simp: numeral_eq_Suc length_Suc_conv)

lemma wf_board_explicit:
  assumes "wf_board b"
  shows "\<exists>a0 a1 a2 a3 b0 b1 b2 b3 c0 c1 c2 c3 d0 d1 d2 d3.
           b = [[a0, a1, a2, a3], [b0, b1, b2, b3], [c0, c1, c2, c3], [d0, d1, d2, d3]]"
proof -
  from assms obtain r0 r1 r2 r3 where b: "b = [r0, r1, r2, r3]"
    unfolding wf_board_def using length4E by blast
  with assms have "length r0 = 4" "length r1 = 4" "length r2 = 4" "length r3 = 4"
    by (simp_all add: wf_board_def)
  then obtain a0 a1 a2 a3 b0 b1 b2 b3 c0 c1 c2 c3 d0 d1 d2 d3 where
    "r0 = [a0, a1, a2, a3]" "r1 = [b0, b1, b2, b3]" "r2 = [c0, c1, c2, c3]" "r3 = [d0, d1, d2, d3]"
    by (meson length4E)
  with b show ?thesis by blast
qed

lemma merge_loop_Nil: "merge_loop [] m = m"
  by (subst merge_loop.simps) simp

lemma merge_loop_single: "merge_loop [x] m = m @ [x]"
  by (subst merge_loop.simps) (simp add: merge_loop_Nil)

lemma merge_loop_pair:
  "merge_loop (x # y # rest) m =
     (if x = y then merge_loop rest (m @ [x * 2]) else merge_loop (y # rest) (m @ [x]))"
  by (subst merge_loop.simps) simp

lemma merge_loop_acc: "merge_loop xs m = m @ merge_tiles xs"
  by (induction xs arbitrary: m rule: merge_tiles.induct)
     (simp_all add: merge_loop_Nil merge_loop_single merge_loop_pair)

lemma merge_loop_tiles: "merge_loop xs [] = merge_tiles xs"
  by (simp add: merge_loop_acc)

lemma move_row_left_tiles:
  "move_row_left row =
     merge_tiles (filter (\<lambda>x. x \<noteq> 0) row) @
       replicate (4 - length (merge_tiles (filter (\<lambda>x. x \<noteq> 0) row))) 0"
  by (simp add: move_row_left_def merge_loop_tiles Let_def)

lemma scan_merge_tiles:
  "scan_merge xs out True = out @ merge_tiles xs"
  "scan_merge xs (out @ [t]) False = out @ merge_tiles (t # xs)"
proof (induction xs arbitrary: out t)
  case Nil
  { case 1 show ?case by simp }
  { case 2 show ?case by simp }
next
  case (Cons x xs)
  { case 1 show ?case using Cons.IH(2) [of out x] by simp }
  { case 2 show ?case using Cons.IH(1) [of "out @ [x * 2]"] Cons.IH(2) [of "out @ [t]" x]
      by simp }
qed


lemma length_merge_tiles_le: "length (merge_tiles xs) \<le> length xs"
  by (induction xs rule: merge_tiles.induct) auto

lemma sum_list_merge_tiles: "sum_list (merge_tiles xs) = sum_list xs"
  by (induction xs rule: merge_tiles.induct) auto

lemma merge_tiles_nonzero: "0 \<notin> set xs \<Longrightarrow> 0 \<notin> set (merge_tiles xs)"
  by (induction xs rule: merge_tiles.induct) auto

lemma merge_tiles_Nil_iff: "merge_tiles xs = [] \<longleftrightarrow> xs = []"
  by (induction xs rule: merge_tiles.induct) auto

lemma merge_tiles_same_length: "length (merge_tiles xs) = length xs \<Longrightarrow> merge_tiles xs = xs"
proof (induction xs rule: merge_tiles.induct)
  case (3 x y rest)
  show ?case
  proof (cases "x = y")
    case True
    have "length (merge_tiles rest) \<le> length rest" by (rule length_merge_tiles_le)
    with True 3(3) show ?thesis by simp
  next
    case False
    with 3 show ?thesis by simp
  qed
qed simp_all


lemma sum_list_filter_nonzero: "sum_list (filter (\<lambda>x. x \<noteq> 0) xs) = sum_list (xs :: int list)"
  by (induction xs) auto


lemma length_move_row_left: "length row \<le> 4 \<Longrightarrow> length (move_row_left row) = 4"
proof -
  assume "length row \<le> 4"
  have "length (merge_tiles (filter (\<lambda>x. x \<noteq> 0) row)) \<le> length (filter (\<lambda>x. x \<noteq> 0) row)"
    by (rule length_merge_tiles_le)
  also have "\<dots> \<le> length row" by simp
  finally show ?thesis using \<open>length row \<le> 4\<close> by (simp add: move_row_left_tiles)
qed

lemma sum_list_move_row_left: "sum_list (move_row_left row) = sum_list row"
  by (simp add: move_row_left_tiles sum_list_merge_tiles sum_list_filter_nonzero sum_list_replicate)

lemma move_row_left_fixed_tail:
  assumes fixed: "move_row_left row = row"
    and ij: "i < j" "j < length row"
    and zero: "row ! i = 0"
  shows "row ! j = 0"
proof -
  define tiles where "tiles = merge_tiles (filter (\<lambda>x. x \<noteq> 0) row)"
  define k where "k = 4 - length tiles"
  have row: "row = tiles @ replicate k 0"
    using fixed by (simp add: move_row_left_tiles tiles_def k_def)
  have nz: "0 \<notin> set tiles"
    unfolding tiles_def by (rule merge_tiles_nonzero) simp
  have "\<not> i < length tiles"
  proof
    assume "i < length tiles"
    then have "row ! i \<in> set tiles"
      by (subst row) (simp add: nth_append)
    with zero nz show False by simp
  qed
  then have "length tiles \<le> j" using ij by simp
  moreover have "j < length tiles + k"
    using ij(2) by (subst (asm) row) simp
  ultimately have "(tiles @ replicate k 0) ! j = 0"
    by (simp add: nth_append)
  then show ?thesis using row by simp
qed

lemma move_row_left_changed_zero:
  assumes len: "length row = 4" and ch: "move_row_left row \<noteq> row"
  shows "0 \<in> set (move_row_left row)"
proof (rule ccontr)
  assume no: "0 \<notin> set (move_row_left row)"
  define f where "f = filter (\<lambda>x. x \<noteq> 0) row"
  define tiles where "tiles = merge_tiles f"
  have mrl: "move_row_left row = tiles @ replicate (4 - length tiles) 0"
    by (simp add: move_row_left_tiles tiles_def f_def)
  from no have "4 - length tiles = 0"
    by (simp add: mrl)
  moreover have "length tiles \<le> length f" unfolding tiles_def by (rule length_merge_tiles_le)
  moreover have "length f \<le> length row" unfolding f_def by simp
  ultimately have lens: "length tiles = length f" "length f = length row"
    using len by simp_all
  from lens(2) have "f = row"
    unfolding f_def by (metis filter_True length_filter_less nat_less_le filter_id_conv filter_cong)
  moreover from lens(1) have "tiles = f" unfolding tiles_def by (rule merge_tiles_same_length)
  ultimately have "move_row_left row = row" using mrl len by simp
  with ch show False by simp
qed

lemma move_row_left_changed_tile:
  assumes len: "length row = 4" and ch: "move_row_left row \<noteq> row"
  shows "\<exists>x \<in> set (move_row_left row). x \<noteq> 0"
proof (rule ccontr)
  assume "\<not> ?thesis"
  then have all0: "\<forall>x \<in> set (move_row_left row). x = 0" by simp
  define f where "f = filter (\<lambda>x. x \<noteq> 0) row"
  have mrl: "move_row_left row = merge_tiles f @ replicate (4 - length (merge_tiles f)) 0"
    by (simp add: move_row_left_tiles f_def)
  have "0 \<notin> set (merge_tiles f)" unfolding f_def by (rule merge_tiles_nonzero) simp
  with all0 have "merge_tiles f = []"
    by (cases "merge_tiles f") (auto simp: mrl)
  then have "f = []" by (simp add: merge_tiles_Nil_iff)
  then have "\<forall>x \<in> set row. x = 0" unfolding f_def by (simp add: filter_empty_conv)
  then have "row = replicate (length row) 0" by (simp add: replicate_length_same)
  moreover have "move_row_left row = replicate 4 0" using \<open>merge_tiles f = []\<close> by (simp add: mrl)
  ultimately show False using ch len by simp
qed



lemma scan_merge_start: "scan_merge xs [] False = merge_tiles xs"
proof (cases xs)
  case Nil
  then show ?thesis by simp
next
  case (Cons x rest)
  then show ?thesis using scan_merge_tiles(2) [of rest "[]" x] by simp
qed

text \<open>
  C7. The row-merge step of \<^verbatim>\<open>move_row_left\<close> is the left-to-right scan in which every
  adjacent equal pair merges once and a tile produced by a merge is never merged again;
  the row \<open>[2,2,2,2]\<close> moved left is \<open>[4,4,0,0]\<close> and not \<open>[8,0,0,0]\<close>.
\<close>

theorem move_row_left_merges_once:
  "move_row_left row = spec_move_row_left row
   \<and> move_row_left [2, 2, 2, 2] = [4, 4, 0, 0]
   \<and> move_row_left [2, 2, 2, 2] \<noteq> [8, 0, 0, 0]"
  by (simp add: move_row_left_tiles spec_move_row_left_def scan_merge_start numeral_eq_Suc Let_def)

section \<open>Properties of the moves\<close>

lemma for_each_range4:
  "for_each body range4 s =
     (case body 0 s of Inl e \<Rightarrow> Inl e | Inr s1 \<Rightarrow>
      (case body 1 s1 of Inl e \<Rightarrow> Inl e | Inr s2 \<Rightarrow>
       (case body 2 s2 of Inl e \<Rightarrow> Inl e | Inr s3 \<Rightarrow>
        (case body 3 s3 of Inl e \<Rightarrow> Inl e | Inr s4 \<Rightarrow> Inr s4))))"
  by (simp add: range4_def split: sum.splits)

lemma left_rows:
  "left [r0, r1, r2, r3] =
     Inr (move_row_left r0 \<noteq> r0 \<or> move_row_left r1 \<noteq> r1 \<or> move_row_left r2 \<noteq> r2
            \<or> move_row_left r3 \<noteq> r3,
          [move_row_left r0, move_row_left r1, move_row_left r2, move_row_left r3])"
  by (simp add: left_def for_each_range4 left_row_def py_get_def py_set_def Let_def)

lemma left_wf:
  assumes "wf_board b"
  shows "left b = Inr (map move_row_left b \<noteq> b, map move_row_left b)"
proof -
  from assms obtain r0 r1 r2 r3 where b: "b = [r0, r1, r2, r3]"
    unfolding wf_board_def using length4E by blast
  show ?thesis unfolding b left_rows by auto
qed

lemma reverse_rows:
  "for_each reverse_row range4 [r0, r1, r2, r3] = Inr [rev r0, rev r1, rev r2, rev r3]"
  by (simp add: for_each_range4 reverse_row_def py_get_def py_set_def)

lemma reverse_rows_wf:
  assumes "wf_board b"
  shows "for_each reverse_row range4 b = Inr (map rev b)"
proof -
  from assms obtain r0 r1 r2 r3 where b: "b = [r0, r1, r2, r3]"
    unfolding wf_board_def using length4E by blast
  show ?thesis unfolding b reverse_rows by simp
qed

lemma wf_board_map: "wf_board b \<Longrightarrow> (\<And>row. length row = 4 \<Longrightarrow> length (f row) = 4) \<Longrightarrow> wf_board (map f b)"
  by (auto simp: wf_board_def list_all_iff)

lemma wf_board_left: "wf_board b \<Longrightarrow> wf_board (map move_row_left b)"
  by (rule wf_board_map) (simp_all add: length_move_row_left)

lemma right_wf:
  assumes "wf_board b"
  shows "right b = Inr (map move_row_left (map rev b) \<noteq> map rev b,
                        map rev (map move_row_left (map rev b)))"
proof -
  have 1: "wf_board (map rev b)" using assms by (rule wf_board_map) simp
  have 2: "wf_board (map move_row_left (map rev b))" using 1 by (rule wf_board_left)
  show ?thesis
    unfolding right_def reverse_rows_wf [OF assms] sum.case left_wf [OF 1] prod.case
      reverse_rows_wf [OF 2] ..
qed

lemma upt_4: "[0..<4] = [0, 1, 2, 3]"
  by (simp add: upt_rec)

lemma rotate_cw_explicit:
  "rotate_board_clockwise
     [[a0, a1, a2, a3], [b0, b1, b2, b3], [c0, c1, c2, c3], [d0, d1, d2, d3]] =
     [[d0, c0, b0, a0], [d1, c1, b1, a1], [d2, c2, b2, a2], [d3, c3, b3, a3]]"
  by (simp add: rotate_board_clockwise_def zip_star_def upt_4)

lemma rotate_ccw_explicit:
  "rotate_board_counterclockwise
     [[a0, a1, a2, a3], [b0, b1, b2, b3], [c0, c1, c2, c3], [d0, d1, d2, d3]] =
     [[a3, b3, c3, d3], [a2, b2, c2, d2], [a1, b1, c1, d1], [a0, b0, c0, d0]]"
  by (simp add: rotate_board_counterclockwise_def zip_star_def upt_4)

lemma wf_rotate_cw: "wf_board b \<Longrightarrow> wf_board (rotate_board_clockwise b)"
  by (drule wf_board_explicit) (auto simp: rotate_cw_explicit wf_board_def)

lemma wf_rotate_ccw: "wf_board b \<Longrightarrow> wf_board (rotate_board_counterclockwise b)"
  by (drule wf_board_explicit) (auto simp: rotate_ccw_explicit wf_board_def)

lemma rotate_cw_ccw: "wf_board b \<Longrightarrow> rotate_board_clockwise (rotate_board_counterclockwise b) = b"
  by (drule wf_board_explicit) (auto simp: rotate_ccw_explicit rotate_cw_explicit)

lemma rotate_ccw_cw: "wf_board b \<Longrightarrow> rotate_board_counterclockwise (rotate_board_clockwise b) = b"
  by (drule wf_board_explicit) (auto simp: rotate_ccw_explicit rotate_cw_explicit)

lemma up_wf:
  assumes "wf_board b"
  shows "up b = Inr (map move_row_left (rotate_board_counterclockwise b) \<noteq> rotate_board_counterclockwise b,
                     rotate_board_clockwise (map move_row_left (rotate_board_counterclockwise b)))"
  by (simp add: up_def left_wf [OF wf_rotate_ccw [OF assms]])

lemma down_wf:
  assumes "wf_board b"
  shows "down b = Inr (map move_row_left (rotate_board_clockwise b) \<noteq> rotate_board_clockwise b,
                     rotate_board_counterclockwise (map move_row_left (rotate_board_clockwise b)))"
  by (simp add: down_def left_wf [OF wf_rotate_cw [OF assms]])

lemma board_sum_left: "board_sum (map move_row_left b) = board_sum b"
  by (simp add: board_sum_def comp_def sum_list_move_row_left)

lemma board_sum_rev: "board_sum (map rev b) = board_sum b"
  by (simp add: board_sum_def comp_def)

lemma board_sum_cw: "wf_board b \<Longrightarrow> board_sum (rotate_board_clockwise b) = board_sum b"
  by (drule wf_board_explicit) (auto simp: rotate_cw_explicit board_sum_def)

lemma board_sum_ccw: "wf_board b \<Longrightarrow> board_sum (rotate_board_counterclockwise b) = board_sum b"
  by (drule wf_board_explicit) (auto simp: rotate_ccw_explicit board_sum_def)

lemma wf_board_mixed: "wf_board board_mixed"
  by (simp add: wf_board_def board_mixed_def)



text \<open>
  C8. On every 4x4 board the two rotations undo each other: rotating counterclockwise and
  then clockwise gives the board back, and so does rotating clockwise and then
  counterclockwise.
\<close>

theorem rotations_inverse:
  assumes "wf_board B"
  shows "rotate_board_clockwise (rotate_board_counterclockwise B) = B
         \<and> rotate_board_counterclockwise (rotate_board_clockwise B) = B"
  using assms by (simp add: rotate_cw_ccw rotate_ccw_cw)

theorem rotations_inverse_witness:
  "wf_board board_mixed
   \<and> rotate_board_clockwise (rotate_board_counterclockwise board_mixed) = board_mixed
   \<and> rotate_board_counterclockwise (rotate_board_clockwise board_mixed) = board_mixed"
  using rotations_inverse [of board_mixed] by (simp add: wf_board_def board_mixed_def)



text \<open>
  C10. On every 4x4 board each of the four moves returns a board whose cells have the same
  sum as the cells of the input.
\<close>

theorem moves_preserve_sum:
  assumes "wf_board b"
  shows "(\<exists>moved b'. left b = Inr (moved, b') \<and> board_sum b' = board_sum b)
       \<and> (\<exists>moved b'. right b = Inr (moved, b') \<and> board_sum b' = board_sum b)
       \<and> (\<exists>moved b'. up b = Inr (moved, b') \<and> board_sum b' = board_sum b)
       \<and> (\<exists>moved b'. down b = Inr (moved, b') \<and> board_sum b' = board_sum b)"
proof -
  have l: "board_sum (map move_row_left b) = board_sum b" by (rule board_sum_left)
  have r: "board_sum (map rev (map move_row_left (map rev b))) = board_sum b"
    by (simp only: board_sum_rev board_sum_left)
  have wu: "wf_board (map move_row_left (rotate_board_counterclockwise b))"
    using assms by (intro wf_board_left wf_rotate_ccw)
  have wd: "wf_board (map move_row_left (rotate_board_clockwise b))"
    using assms by (intro wf_board_left wf_rotate_cw)
  have u: "board_sum (rotate_board_clockwise (map move_row_left (rotate_board_counterclockwise b)))
             = board_sum b"
    by (simp only: board_sum_cw [OF wu] board_sum_left board_sum_ccw [OF assms])
  have d: "board_sum (rotate_board_counterclockwise (map move_row_left (rotate_board_clockwise b)))
             = board_sum b"
    by (simp only: board_sum_ccw [OF wd] board_sum_left board_sum_cw [OF assms])
  show ?thesis
    using l r u d left_wf [OF assms] right_wf [OF assms] up_wf [OF assms] down_wf [OF assms]
    by blast
qed

theorem moves_preserve_sum_witness:
  "wf_board board_mixed
   \<and> (\<exists>moved b'. left board_mixed = Inr (moved, b') \<and> board_sum b' = board_sum board_mixed)
   \<and> (\<exists>moved b'. right board_mixed = Inr (moved, b') \<and> board_sum b' = board_sum board_mixed)
   \<and> (\<exists>moved b'. up board_mixed = Inr (moved, b') \<and> board_sum b' = board_sum board_mixed)
   \<and> (\<exists>moved b'. down board_mixed = Inr (moved, b') \<and> board_sum b' = board_sum board_mixed)"
  using moves_preserve_sum [OF wf_board_mixed] wf_board_mixed by blast

section \<open>Properties of the heuristic\<close>

lemma wf_board_nth: "wf_board b \<Longrightarrow> r < 4 \<Longrightarrow> length (b ! r) = 4"
  by (simp add: wf_board_def list_all_length)

lemma cell_wf:
  assumes "wf_board b" "0 \<le> r" "r < 4" "0 \<le> c" "c < 4"
  shows "cell b r c = Inr (b ! nat r ! nat c)"
proof -
  have "length b = 4" using assms(1) by (simp add: wf_board_def)
  moreover have "length (b ! nat r) = 4" using assms by (intro wf_board_nth) auto
  ultimately show ?thesis using assms by (simp add: cell_def py_get_def)
qed

lemma cell_wf_last:
  assumes "wf_board b" "0 \<le> c" "c < 4"
  shows "cell b (- 1) c = Inr (b ! 3 ! nat c)"
proof -
  have "length b = 4" using assms(1) by (simp add: wf_board_def)
  moreover have "length (b ! 3) = 4" using assms by (intro wf_board_nth) auto
  ultimately show ?thesis using assms by (simp add: cell_def py_get_def)
qed

lemma nb_left_wf:
  "wf_board b \<Longrightarrow> 0 \<le> r \<Longrightarrow> r < 4 \<Longrightarrow> 0 \<le> c \<Longrightarrow> c < 4 \<Longrightarrow>
   nb_left b r c = Inr (if c > 0 then b ! nat r ! nat (c - 1) else 0)"
  by (simp add: nb_left_def cell_wf)

lemma nb_right_wf:
  "wf_board b \<Longrightarrow> 0 \<le> r \<Longrightarrow> r < 4 \<Longrightarrow> 0 \<le> c \<Longrightarrow> c < 4 \<Longrightarrow>
   nb_right b r c = Inr (if c < 3 then b ! nat r ! nat (c + 1) else 0)"
  by (simp add: nb_right_def cell_wf)

lemma nb_up_wf:
  "wf_board b \<Longrightarrow> 0 \<le> r \<Longrightarrow> r < 4 \<Longrightarrow> 0 \<le> c \<Longrightarrow> c < 4 \<Longrightarrow>
   nb_up b r c = Inr (if r < 3 then b ! nat (r + 1) ! nat c else 0)"
  by (simp add: nb_up_def cell_wf)

lemma nb_down_wf:
  "wf_board b \<Longrightarrow> 0 \<le> r \<Longrightarrow> r < 4 \<Longrightarrow> 0 \<le> c \<Longrightarrow> c < 4 \<Longrightarrow>
   nb_down b r c = Inr (if r < 3 then (if r = 0 then b ! 3 ! nat c else b ! nat (r - 1) ! nat c) else 0)"
  by (cases "r = 0") (simp_all add: nb_down_def cell_wf cell_wf_last)




lemma float_limit_lower: "2 ^ 1034 \<le> float_limit"
proof -
  have "(2::int) ^ 981 \<le> 2 ^ 1034" by (rule power_increasing) simp_all
  moreover have "(2::int) ^ 1035 = 2 * 2 ^ 1034" by simp
  ultimately show ?thesis by (simp add: float_limit_def)
qed

lemma float_limit_small: "x \<le> 2 ^ 20 \<Longrightarrow> x < float_limit"
proof -
  assume "x \<le> 2 ^ 20"
  moreover have "(2::int) ^ 20 < 2 ^ 1034" by (rule power_strict_increasing) simp_all
  ultimately show ?thesis using float_limit_lower by linarith
qed

lemma normalize_tile_share: "\<bar>x\<bar> < float_limit \<Longrightarrow> normalize_tile x = Inr (share x)"
  by (simp add: normalize_tile_def share_def)

lemma cell_points_value:
  assumes "6 * \<bar>v\<bar> < float_limit"
  shows "cell_points v l rt u d = Inr (cell_value v l rt u d)"
proof -
  have "\<bar>v\<bar> < float_limit" "\<bar>2 * v\<bar> < float_limit" "\<bar>3 * v\<bar> < float_limit"
    "\<bar>6 * v\<bar> < float_limit"
    using assms by (simp_all add: abs_mult)
  then show ?thesis
    by (simp add: cell_points_def cell_value_def normalize_tile_share Let_def)
qed

lemma no_overflow_cell:
  assumes "wf_board b" "no_overflow b" "r < 4" "c < 4"
  shows "6 * \<bar>b ! r ! c\<bar> < float_limit"
proof -
  have "length b = 4" "length (b ! r) = 4"
    using assms(1,3) by (simp_all add: wf_board_def list_all_length)
  then show ?thesis
    using assms(2-4) by (simp add: no_overflow_def list_all_length)
qed

lemma no_overflow_cells:
  assumes "wf_board b" "\<And>r c. r < 4 \<Longrightarrow> c < 4 \<Longrightarrow> 6 * \<bar>b ! r ! c\<bar> < float_limit"
  shows "no_overflow b"
  using assms by (simp add: no_overflow_def wf_board_def list_all_length)

lemma points_step_wf:
  assumes "wf_board b" "no_overflow b" "0 \<le> r" "r < 4" "0 \<le> c" "c < 4"
  shows "points_step b r c bp =
     Inr (bp[nat r := (bp ! nat r)[nat c := new_entry b r c (bp ! nat r ! nat c)]])"
proof -
  have "6 * \<bar>b ! nat r ! nat c\<bar> < float_limit"
    using assms by (intro no_overflow_cell) auto
  then show ?thesis
    using assms
    by (simp add: points_step_def cell_wf nb_left_wf nb_right_wf nb_up_wf nb_down_wf
        new_entry_def cell_points_value)
qed

lemma zero_matrix: "replicate 4 (replicate 4 (0::real)) = [[0,0,0,0],[0,0,0,0],[0,0,0,0],[0,0,0,0]]"
  by (simp add: numeral_eq_Suc)

lemma create_points_wf:
  assumes "wf_board b" "no_overflow b"
  shows "create_points b =
     Inr [[new_entry b 0 0 0, new_entry b 0 1 0, new_entry b 0 2 0, new_entry b 0 3 0],
          [new_entry b 1 0 0, new_entry b 1 1 0, new_entry b 1 2 0, new_entry b 1 3 0],
          [new_entry b 2 0 0, new_entry b 2 1 0, new_entry b 2 2 0, new_entry b 2 3 0],
          [new_entry b 3 0 0, new_entry b 3 1 0, new_entry b 3 2 0, new_entry b 3 3 0]]"
  unfolding create_points_def for_each_range4 zero_matrix
  by (simp add: points_step_wf [OF assms] numeral_eq_Suc del: One_nat_def)

lemma less_4_cases: "(n :: nat) < 4 \<Longrightarrow> n = 0 \<or> n = 1 \<or> n = 2 \<or> n = 3"
  by arith

lemma contribution_wf:
  assumes "wf_board b" "no_overflow b" "r < 4" "c < 4"
  shows "contribution b r c = Inr (new_entry b (int r) (int c) 0)"
  using less_4_cases [OF assms(3)] less_4_cases [OF assms(4)]
  by (auto simp: contribution_def create_points_wf [OF assms(1,2)])

lemma cell_value_base:
  assumes "v \<noteq> 0"
  shows "cell_value v l rt u d = share v \<longleftrightarrow>
           (l < v \<or> rt > v \<or> u \<le> v \<or> d \<ge> v) \<and> \<not> (l < v \<and> rt > v)"
    and "cell_value v l rt u d \<noteq> 0 \<longleftrightarrow> (l < v \<or> rt > v \<or> u \<le> v \<or> d \<ge> v)"
  using assms by (auto simp: cell_value_def share_def Let_def)

lemma no_overflow_mixed: "no_overflow board_mixed"
  by (simp add: no_overflow_def board_mixed_def float_limit_small)

lemma no_overflow_c1: "no_overflow board_c1"
  by (simp add: no_overflow_def board_c1_def float_limit_small)

lemma normalize_tile_small: "normalize_tile 2 = Inr (1 / 1024)" "normalize_tile 4 = Inr (1 / 512)"
  by (simp_all add: normalize_tile_share float_limit_small share_def)

text \<open>
  C9. On every 4x4 board whose only non-zero cell is one tile of value 2048, at any of the
  16 positions, the entry of \<^verbatim>\<open>create_points\<close> for that tile is exactly 1.
\<close>

theorem lone_2048_contribution:
  assumes wf: "wf_board b" and r: "r < 4" and c: "c < 4"
    and tile: "b ! r ! c = 2048"
    and rest: "\<forall>r' < 4. \<forall>c' < 4. (r', c') \<noteq> (r, c) \<longrightarrow> b ! r' ! c' = 0"
  shows "contribution b r c = Inr 1"
proof -
  have small: "no_overflow b"
  proof (rule no_overflow_cells [OF wf])
    fix r' c' :: nat assume "r' < 4" "c' < 4"
    then have "b ! r' ! c' = 0 \<or> b ! r' ! c' = 2048" using rest tile by auto
    then show "6 * \<bar>b ! r' ! c'\<bar> < float_limit" by (auto intro: float_limit_small)
  qed
  have ir: "0 \<le> int r" "int r < 4" and ic: "0 \<le> int c" "int c < 4"
    using r c by simp_all
  have l: "nb_left b (int r) (int c) = Inr 0"
    using rest r c by (auto simp: nb_left_wf [OF wf ir ic] nat_diff_distrib)
  have rt: "nb_right b (int r) (int c) = Inr 0"
    using rest r c by (auto simp: nb_right_wf [OF wf ir ic] nat_add_distrib)
  have u: "nb_up b (int r) (int c) = Inr 0"
    using rest r c by (auto simp: nb_up_wf [OF wf ir ic] nat_add_distrib)
  have d: "nb_down b (int r) (int c) = Inr 0"
    using rest r c by (auto simp: nb_down_wf [OF wf ir ic] nat_diff_distrib)
  have "new_entry b (int r) (int c) 0 = cell_value 2048 0 0 0 0"
    by (simp add: new_entry_def tile l rt u d)
  also have "\<dots> = 1"
    by (simp add: cell_value_def share_def)
  finally show ?thesis
    by (simp add: contribution_wf [OF wf small r c])
qed

theorem lone_2048_contribution_witness:
  "wf_board board_2048 \<and> (1::nat) < 4 \<and> (2::nat) < 4 \<and> board_2048 ! 1 ! 2 = 2048
   \<and> contribution board_2048 1 2 = Inr 1"
proof -
  have wf: "wf_board board_2048" by (simp add: wf_board_def board_2048_def)
  have tile: "board_2048 ! 1 ! 2 = 2048" by (simp add: board_2048_def)
  have rest: "\<forall>r' < 4. \<forall>c' < 4. (r', c') \<noteq> (1, 2) \<longrightarrow> board_2048 ! r' ! c' = 0"
  proof (intro allI impI)
    fix r' c' :: nat
    assume "r' < 4" "c' < 4" "(r', c') \<noteq> (1, 2)"
    then show "board_2048 ! r' ! c' = 0"
      using less_4_cases [of r'] less_4_cases [of c'] by (auto simp: board_2048_def)
  qed
  show ?thesis
    using lone_2048_contribution [OF wf _ _ tile rest] wf tile by simp
qed

text \<open>
  C1, as the code has it. For every 4x4 board whose cells are small enough for
  \<^verbatim>\<open>normalize\<close> not to raise, and every non-empty cell of value \<open>v\<close>, with \<open>l\<close> the left
  neighbour and \<open>rt\<close> the right neighbour (0 off the board) and \<open>u\<close> and \<open>d\<close> the values
  that \<^verbatim>\<open>create_points\<close> reads into \<^verbatim>\<open>up\<close> and \<^verbatim>\<open>down\<close>: the cell gets a non-zero
  entry exactly when \<open>l < v\<close> or \<open>rt > v\<close> or \<open>u \<le> v\<close> or \<open>d \<ge> v\<close>, and the entry is
  the 1x weight \<^verbatim>\<open>normalize(v)\<close> exactly when that holds and not both \<open>l < v\<close> and
  \<open>rt > v\<close>.
\<close>

theorem heuristic_base_weight:
  assumes wf: "wf_board b" and small: "no_overflow b"
    and r: "r < 4" and c: "c < 4" and v: "b ! r ! c \<noteq> 0"
  shows "\<exists>l rt u d.
           l = (if 0 < c then b ! r ! (c - 1) else 0)
         \<and> rt = (if c < 3 then b ! r ! (c + 1) else 0)
         \<and> nb_left b (int r) (int c) = Inr l \<and> nb_right b (int r) (int c) = Inr rt
         \<and> nb_up b (int r) (int c) = Inr u \<and> nb_down b (int r) (int c) = Inr d
         \<and> (contribution b r c \<noteq> Inr 0 \<longleftrightarrow>
              (l < b ! r ! c \<or> rt > b ! r ! c \<or> u \<le> b ! r ! c \<or> d \<ge> b ! r ! c))
         \<and> (contribution b r c = normalize_tile (b ! r ! c) \<longleftrightarrow>
              (l < b ! r ! c \<or> rt > b ! r ! c \<or> u \<le> b ! r ! c \<or> d \<ge> b ! r ! c)
              \<and> \<not> (l < b ! r ! c \<and> rt > b ! r ! c))"
proof -
  have ir: "0 \<le> int r" "int r < 4" and ic: "0 \<le> int c" "int c < 4"
    using r c by simp_all
  define l where "l = (if 0 < c then b ! r ! (c - 1) else 0)"
  define rt where "rt = (if c < 3 then b ! r ! (c + 1) else 0)"
  have l: "nb_left b (int r) (int c) = Inr l"
    by (simp add: nb_left_wf [OF wf ir ic] l_def nat_diff_distrib)
  have rt: "nb_right b (int r) (int c) = Inr rt"
    by (simp add: nb_right_wf [OF wf ir ic] rt_def nat_add_distrib)
  obtain u where u: "nb_up b (int r) (int c) = Inr u"
    using nb_up_wf [OF wf ir ic] by blast
  obtain d where d: "nb_down b (int r) (int c) = Inr d"
    using nb_down_wf [OF wf ir ic] by blast
  have e: "contribution b r c = Inr (cell_value (b ! r ! c) l rt u d)"
    using v by (simp add: contribution_wf [OF wf small r c] new_entry_def l rt u d)
  have "6 * \<bar>b ! r ! c\<bar> < float_limit" by (rule no_overflow_cell [OF wf small r c])
  then have n: "normalize_tile (b ! r ! c) = Inr (share (b ! r ! c))"
    by (intro normalize_tile_share) simp
  show ?thesis
    using l rt u d cell_value_base [OF v, of l rt u d] l_def rt_def by (simp add: e n)
qed

theorem heuristic_base_weight_witness:
  "wf_board board_mixed \<and> no_overflow board_mixed \<and> (1::nat) < 4 \<and> (2::nat) < 4
   \<and> board_mixed ! 1 ! 2 \<noteq> 0
   \<and> nb_left board_mixed 1 2 = Inr 2 \<and> nb_right board_mixed 1 2 = Inr 4
   \<and> contribution board_mixed 1 2 \<noteq> Inr 0
   \<and> contribution board_mixed 1 2 = normalize_tile 4"
proof -
  have v: "board_mixed ! 1 ! 2 \<noteq> 0" by (simp add: board_mixed_def)
  have r: "(1::nat) < 4" and c: "(2::nat) < 4" by simp_all
  show ?thesis
    using heuristic_base_weight [OF wf_board_mixed no_overflow_mixed r c v] wf_board_mixed
      no_overflow_mixed
    by (auto simp: board_mixed_def)
qed

text \<open>
  C1, as stated, fails on \<open>board_c1\<close>: the cell in row 1 and column 1 holds 4 and is
  strictly greater than its right neighbour 2, yet its entry is 0 and not
  \<^verbatim>\<open>normalize(4)\<close>.
\<close>

theorem heuristic_base_weight_counterexample:
  "board_c1 ! 1 ! 1 = 4 \<and> board_c1 ! 1 ! 2 < board_c1 ! 1 ! 1
   \<and> contribution board_c1 1 1 = Inr 0
   \<and> contribution board_c1 1 1 \<noteq> normalize_tile (board_c1 ! 1 ! 1)"
proof -
  have wf: "wf_board board_c1" by (simp add: wf_board_def board_c1_def)
  have ir: "0 \<le> int 1" "int 1 < 4" by simp_all
  have "new_entry board_c1 1 1 0 = 0"
    using nb_left_wf [OF wf ir ir] nb_right_wf [OF wf ir ir] nb_up_wf [OF wf ir ir]
      nb_down_wf [OF wf ir ir]
    by (simp add: new_entry_def cell_value_def board_c1_def)
  then have "contribution board_c1 1 1 = Inr 0"
    using contribution_wf [OF wf no_overflow_c1, of 1 1] by simp
  then show ?thesis
    by (simp add: board_c1_def normalize_tile_small)
qed

text \<open>
  C2, on a concrete board. For the cell in row 0 and column 1 of \<open>board_wrap\<close> the value
  read into \<^verbatim>\<open>down\<close> is the cell in row 3 of the same column, which is not adjacent;
  the entry of the cell is \<^verbatim>\<open>normalize(2)\<close>, and it becomes 0 when only that cell of
  row 3 is emptied. For a cell in row 3 the value read into \<^verbatim>\<open>down\<close> is 0 although
  row 2 is inside the grid, also for the tile in row 3 of \<open>board_row3\<close>, whose neighbour
  in row 2 holds 8. In the rows between, \<^verbatim>\<open>up\<close> holds the cell of the row below and
  \<^verbatim>\<open>down\<close> the cell of the row above.
\<close>

theorem neighbour_down_wraps:
  "nb_down board_wrap 0 1 = Inr 2
   \<and> board_wrap ! 3 ! 1 = 2
   \<and> contribution board_wrap 0 1 = normalize_tile 2
   \<and> normalize_tile 2 = Inr (1 / 1024)
   \<and> contribution board_no_wrap 0 1 = Inr 0
   \<and> nb_down board_c1 3 1 = Inr 0 \<and> board_c1 ! 2 ! 1 = 8
   \<and> nb_up board_c1 1 1 = Inr 8 \<and> nb_down board_c1 1 1 = Inr 2 \<and> board_c1 ! 0 ! 1 = 2
   \<and> board_row3 ! 3 ! 1 = 4 \<and> nb_down board_row3 3 1 = Inr 0 \<and> nb_up board_row3 3 1 = Inr 0
   \<and> board_row3 ! 2 ! 1 = 8"
proof -
  have wf: "wf_board board_wrap" by (simp add: wf_board_def board_wrap_def)
  have wf': "wf_board board_no_wrap" by (simp add: wf_board_def board_no_wrap_def)
  have wf1: "wf_board board_c1" by (simp add: wf_board_def board_c1_def)
  have s: "no_overflow board_wrap" by (simp add: no_overflow_def board_wrap_def float_limit_small)
  have s': "no_overflow board_no_wrap"
    by (simp add: no_overflow_def board_no_wrap_def float_limit_small)
  have r0: "0 \<le> (0::int)" "(0::int) < 4" and c1: "0 \<le> (1::int)" "(1::int) < 4"
    and r3: "0 \<le> (3::int)" "(3::int) < 4" by simp_all
  have 1: "nb_down board_wrap 0 1 = Inr 2"
    using nb_down_wf [OF wf r0 c1] by (simp add: board_wrap_def)
  have 2: "new_entry board_wrap 0 1 0 = 1 / 1024"
    using nb_left_wf [OF wf r0 c1] nb_right_wf [OF wf r0 c1] nb_up_wf [OF wf r0 c1] 1
    by (simp add: new_entry_def cell_value_def share_def board_wrap_def)
  have 3: "new_entry board_no_wrap 0 1 0 = 0"
    using nb_left_wf [OF wf' r0 c1] nb_right_wf [OF wf' r0 c1] nb_up_wf [OF wf' r0 c1]
      nb_down_wf [OF wf' r0 c1]
    by (simp add: new_entry_def cell_value_def board_no_wrap_def)
  have 4: "nb_down board_c1 3 1 = Inr 0"
    using nb_down_wf [OF wf1 r3 c1] by simp
  have 5: "nb_up board_c1 1 1 = Inr 8" "nb_down board_c1 1 1 = Inr 2"
    using nb_up_wf [OF wf1 c1 c1] nb_down_wf [OF wf1 c1 c1] by (simp_all add: board_c1_def)
  have wf3: "wf_board board_row3" by (simp add: wf_board_def board_row3_def)
  have 6: "nb_down board_row3 3 1 = Inr 0" "nb_up board_row3 3 1 = Inr 0"
    "board_row3 ! 3 ! 1 = 4" "board_row3 ! 2 ! 1 = 8"
    using nb_down_wf [OF wf3 r3 c1] nb_up_wf [OF wf3 r3 c1] by (simp_all add: board_row3_def)
  show ?thesis
    using 1 2 3 4 5 6 contribution_wf [OF wf s, of 0 1] contribution_wf [OF wf' s', of 0 1]
    by (simp add: board_wrap_def board_c1_def normalize_tile_small)
qed


section \<open>Properties of the search\<close>

lemma for_each_returns:
  assumes "\<And>i s. i \<in> set xs \<Longrightarrow> \<exists>s'. body i s = Inr s'"
  shows "\<exists>s'. for_each body xs s = Inr s'"
  using assms
proof (induction xs arbitrary: s)
  case Nil
  show ?case by simp
next
  case (Cons i rest)
  obtain s1 where s1: "body i s = Inr s1" using Cons.prems [of i s] by auto
  obtain s2 where "for_each body rest s1 = Inr s2"
    using Cons.IH [of s1] Cons.prems by auto
  with s1 show ?case by simp
qed

lemma count_step_wf:
  assumes "wf_board b" "r \<in> set range4" "c \<in> set range4"
  shows "\<exists>n'. count_step b v r c n = Inr n'"
proof -
  have "0 \<le> r" "r < 4" "0 \<le> c" "c < 4" using assms(2,3) by (auto simp: range4_def)
  then show ?thesis by (simp add: count_step_def cell_wf [OF assms(1)])
qed

lemma count_cells_wf:
  assumes "wf_board b"
  shows "\<exists>n. count_cells b v = Inr n"
  unfolding count_cells_def
  by (intro for_each_returns count_step_wf [OF assms])

lemma get_points_wf:
  assumes "wf_board b" "no_overflow b"
  shows "\<exists>p. get_points b = Inr p"
proof -
  obtain z where z: "count_cells b 0 = Inr z" using count_cells_wf [OF assms(1)] by blast
  obtain t where t: "count_cells b 2 = Inr t" using count_cells_wf [OF assms(1)] by blast
  show ?thesis by (simp add: get_points_def z t create_points_wf [OF assms])
qed

text \<open>No move changes the sum of the absolute values, and no cell exceeds that sum.\<close>

lemma mass_merge_tiles: "sum_list (map abs (merge_tiles xs)) = sum_list (map abs xs)"
  by (induction xs rule: merge_tiles.induct) (auto simp: abs_mult)

lemma mass_filter_nonzero:
  "sum_list (map abs (filter (\<lambda>x. x \<noteq> 0) xs)) = sum_list (map abs (xs :: int list))"
  by (induction xs) auto

lemma mass_move_row_left: "sum_list (map abs (move_row_left row)) = sum_list (map abs row)"
  by (simp add: move_row_left_tiles mass_merge_tiles mass_filter_nonzero sum_list_replicate)

lemma board_mass_left: "board_mass (map move_row_left b) = board_mass b"
  by (simp add: board_mass_def comp_def mass_move_row_left)

lemma board_mass_rev: "board_mass (map rev b) = board_mass b"
  by (simp add: board_mass_def comp_def rev_map [symmetric])

lemma board_mass_cw: "wf_board b \<Longrightarrow> board_mass (rotate_board_clockwise b) = board_mass b"
  by (drule wf_board_explicit) (auto simp: rotate_cw_explicit board_mass_def)

lemma board_mass_ccw:
  "wf_board b \<Longrightarrow> board_mass (rotate_board_counterclockwise b) = board_mass b"
  by (drule wf_board_explicit) (auto simp: rotate_ccw_explicit board_mass_def)

lemma abs_le_mass_row: "x \<in> set xs \<Longrightarrow> \<bar>x\<bar> \<le> sum_list (map abs (xs :: int list))"
proof (induction xs)
  case Nil
  then show ?case by simp
next
  case (Cons y ys)
  have "0 \<le> sum_list (map abs ys)" by (rule sum_list_nonneg) auto
  with Cons show ?case by auto
qed

lemma mass_row_le_board: "row \<in> set b \<Longrightarrow> sum_list (map abs row) \<le> board_mass b"
proof (induction b)
  case Nil
  then show ?case by simp
next
  case (Cons y ys)
  have 1: "0 \<le> sum_list (map abs y)" by (rule sum_list_nonneg) auto
  have "0 \<le> sum_list (map abs row)" for row :: "int list"
    by (rule sum_list_nonneg) auto
  then have 2: "0 \<le> board_mass ys" unfolding board_mass_def
    by (intro sum_list_nonneg) auto
  from Cons 1 2 show ?case by (auto simp: board_mass_def)
qed

lemma small_no_overflow:
  assumes "small_board b"
  shows "no_overflow b"
  unfolding no_overflow_def list_all_iff
proof (intro ballI)
  fix row x assume "row \<in> set b" "x \<in> set row"
  then have "\<bar>x\<bar> \<le> board_mass b"
    using abs_le_mass_row [of x row] mass_row_le_board [of row b] by linarith
  then show "6 * \<bar>x\<bar> < float_limit" using assms by (simp add: small_board_def)
qed

lemma small_bound: "board_mass b \<le> 2 ^ 1032 \<Longrightarrow> small_board b"
proof -
  assume "board_mass b \<le> 2 ^ 1032"
  then have "6 * board_mass b \<le> 6 * 2 ^ 1032" by simp
  also have "(6::int) * 2 ^ 1032 < 8 * 2 ^ 1032" by simp
  also have "(8::int) * 2 ^ 1032 = 2 ^ 1035" by simp
  finally have a: "6 * board_mass b < 2 ^ 1035" .
  have "(2::int) ^ 981 \<le> 2 ^ 1032" by (rule power_increasing) simp_all
  moreover have "(2::int) ^ 1035 = 8 * 2 ^ 1032" by simp
  moreover have "6 * board_mass b \<le> 6 * 2 ^ 1032" using \<open>board_mass b \<le> 2 ^ 1032\<close> by simp
  ultimately show ?thesis by (simp add: small_board_def float_limit_def)
qed

lemma get_points_projr:
  "wf_board b \<Longrightarrow> no_overflow b \<Longrightarrow> get_points b = Inr (projr (get_points b))"
  using get_points_wf [of b] by auto

text \<open>
  On a 4x4 board every move returns a 4x4 board with the same sum of absolute values, and
  its flag says whether the board changed.
\<close>

lemma rev_rows_eq_iff: "map rev x = y \<longleftrightarrow> x = map rev y"
  by (auto simp: comp_def)

lemma left_changed:
  assumes "wf_board b"
  shows "\<exists>b'. left b = Inr (b' \<noteq> b, b') \<and> wf_board b' \<and> board_mass b' = board_mass b"
  using left_wf [OF assms] wf_board_left [OF assms] board_mass_left [of b] by blast

lemma right_changed:
  assumes "wf_board b"
  shows "\<exists>b'. right b = Inr (b' \<noteq> b, b') \<and> wf_board b' \<and> board_mass b' = board_mass b"
proof -
  let ?m = "map move_row_left (map rev b)"
  have w1: "wf_board (map rev b)" using assms by (rule wf_board_map) simp
  have w2: "wf_board (map rev ?m)" using wf_board_left [OF w1] by (rule wf_board_map) simp
  have "(?m \<noteq> map rev b) = (map rev ?m \<noteq> b)"
    by (subst rev_rows_eq_iff) simp
  moreover have "board_mass (map rev ?m) = board_mass b"
    by (simp only: board_mass_rev board_mass_left)
  ultimately show ?thesis using right_wf [OF assms] w2 by simp
qed

lemma up_changed:
  assumes "wf_board b"
  shows "\<exists>b'. up b = Inr (b' \<noteq> b, b') \<and> wf_board b' \<and> board_mass b' = board_mass b"
proof -
  let ?m = "map move_row_left (rotate_board_counterclockwise b)"
  have wm: "wf_board ?m" using assms by (intro wf_board_left wf_rotate_ccw)
  have "(?m \<noteq> rotate_board_counterclockwise b) = (rotate_board_clockwise ?m \<noteq> b)"
    using rotate_cw_ccw [OF assms] rotate_ccw_cw [OF wm] by metis
  moreover have "board_mass (rotate_board_clockwise ?m) = board_mass b"
    by (simp only: board_mass_cw [OF wm] board_mass_left board_mass_ccw [OF assms])
  ultimately show ?thesis using up_wf [OF assms] wf_rotate_cw [OF wm] by simp
qed

lemma down_changed:
  assumes "wf_board b"
  shows "\<exists>b'. down b = Inr (b' \<noteq> b, b') \<and> wf_board b' \<and> board_mass b' = board_mass b"
proof -
  let ?m = "map move_row_left (rotate_board_clockwise b)"
  have wm: "wf_board ?m" using assms by (intro wf_board_left wf_rotate_cw)
  have "(?m \<noteq> rotate_board_clockwise b) = (rotate_board_counterclockwise ?m \<noteq> b)"
    using rotate_ccw_cw [OF assms] rotate_cw_ccw [OF wm] by metis
  moreover have "board_mass (rotate_board_counterclockwise ?m) = board_mass b"
    by (simp only: board_mass_ccw [OF wm] board_mass_left board_mass_cw [OF assms])
  ultimately show ?thesis using down_wf [OF assms] wf_rotate_ccw [OF wm] by simp
qed

lemma move_row_right_fixed_head:
  assumes fixed: "move_row_left (rev row) = rev row"
    and ij: "i < j" "j < length row"
    and zero: "row ! j = 0"
  shows "row ! i = 0"
proof -
  let ?n = "length row"
  have "rev row ! (?n - 1 - j) = 0" using ij zero by (simp add: rev_nth)
  moreover have "?n - 1 - j < ?n - 1 - i" "?n - 1 - i < length (rev row)" using ij by simp_all
  ultimately have "rev row ! (?n - 1 - i) = 0"
    using move_row_left_fixed_tail [OF fixed] by blast
  then show ?thesis using ij by (simp add: rev_nth)
qed

lemma line_all_or_none:
  assumes l: "move_row_left [w, x, y, z] = [w, x, y, z]"
    and r: "move_row_left [z, y, x, w] = [z, y, x, w]"
    and zero: "w = 0 \<or> x = 0 \<or> y = 0 \<or> z = 0"
  shows "w = 0 \<and> x = 0 \<and> y = 0 \<and> z = 0"
proof -
  have r': "move_row_left (rev [w, x, y, z]) = rev [w, x, y, z]" using r by simp
  have t: "\<And>i j. i < j \<Longrightarrow> j < 4 \<Longrightarrow> [w, x, y, z] ! i = 0 \<Longrightarrow> [w, x, y, z] ! j = 0"
    using move_row_left_fixed_tail [OF l] by simp
  have h: "\<And>i j. i < j \<Longrightarrow> j < 4 \<Longrightarrow> [w, x, y, z] ! j = 0 \<Longrightarrow> [w, x, y, z] ! i = 0"
    using move_row_right_fixed_head [OF r'] by simp
  have wx: "w = 0 \<longleftrightarrow> x = 0" using t [of 0 1] h [of 0 1] by auto
  have xy: "x = 0 \<longleftrightarrow> y = 0" using t [of 1 2] h [of 1 2] by auto
  have yz: "y = 0 \<longleftrightarrow> z = 0" using t [of 2 3] h [of 2 3] by auto
  show ?thesis using wx xy yz zero by blast
qed

lemma has_zero_explicit:
  "has_zero [[a0, a1, a2, a3], [b0, b1, b2, b3], [c0, c1, c2, c3], [d0, d1, d2, d3]] \<longleftrightarrow>
     (a0 = 0 \<or> a1 = 0 \<or> a2 = 0 \<or> a3 = 0) \<or> (b0 = 0 \<or> b1 = 0 \<or> b2 = 0 \<or> b3 = 0) \<or>
     (c0 = 0 \<or> c1 = 0 \<or> c2 = 0 \<or> c3 = 0) \<or> (d0 = 0 \<or> d1 = 0 \<or> d2 = 0 \<or> d3 = 0)"
  by (simp add: has_zero_def disj_ac)

lemma has_tile_explicit:
  "has_tile [[a0, a1, a2, a3], [b0, b1, b2, b3], [c0, c1, c2, c3], [d0, d1, d2, d3]] \<longleftrightarrow>
     \<not> ((a0 = 0 \<and> a1 = 0 \<and> a2 = 0 \<and> a3 = 0) \<and> (b0 = 0 \<and> b1 = 0 \<and> b2 = 0 \<and> b3 = 0) \<and>
        (c0 = 0 \<and> c1 = 0 \<and> c2 = 0 \<and> c3 = 0) \<and> (d0 = 0 \<and> d1 = 0 \<and> d2 = 0 \<and> d3 = 0))"
  by (simp add: has_tile_def) blast

text \<open>A 4x4 board with an empty cell and a tile admits a move.\<close>

lemma some_move_changes:
  assumes wf: "wf_board b" and z: "has_zero b" and t: "has_tile b"
  shows "map move_row_left b \<noteq> b
       \<or> map move_row_left (map rev b) \<noteq> map rev b
       \<or> map move_row_left (rotate_board_counterclockwise b) \<noteq> rotate_board_counterclockwise b
       \<or> map move_row_left (rotate_board_clockwise b) \<noteq> rotate_board_clockwise b"
proof (rule ccontr)
  assume "\<not> ?thesis"
  then have l: "map move_row_left b = b"
    and r: "map move_row_left (map rev b) = map rev b"
    and u: "map move_row_left (rotate_board_counterclockwise b) = rotate_board_counterclockwise b"
    and d: "map move_row_left (rotate_board_clockwise b) = rotate_board_clockwise b"
    by simp_all
  obtain a0 a1 a2 a3 b0 b1 b2 b3 c0 c1 c2 c3 d0 d1 d2 d3 where
    b: "b = [[a0, a1, a2, a3], [b0, b1, b2, b3], [c0, c1, c2, c3], [d0, d1, d2, d3]]"
    using wf_board_explicit [OF wf] by blast
  have ra: "a0 = 0 \<or> a1 = 0 \<or> a2 = 0 \<or> a3 = 0 \<Longrightarrow> a0 = 0 \<and> a1 = 0 \<and> a2 = 0 \<and> a3 = 0"
    using l r unfolding b by (intro line_all_or_none) simp_all
  have rb: "b0 = 0 \<or> b1 = 0 \<or> b2 = 0 \<or> b3 = 0 \<Longrightarrow> b0 = 0 \<and> b1 = 0 \<and> b2 = 0 \<and> b3 = 0"
    using l r unfolding b by (intro line_all_or_none) simp_all
  have rc: "c0 = 0 \<or> c1 = 0 \<or> c2 = 0 \<or> c3 = 0 \<Longrightarrow> c0 = 0 \<and> c1 = 0 \<and> c2 = 0 \<and> c3 = 0"
    using l r unfolding b by (intro line_all_or_none) simp_all
  have rd: "d0 = 0 \<or> d1 = 0 \<or> d2 = 0 \<or> d3 = 0 \<Longrightarrow> d0 = 0 \<and> d1 = 0 \<and> d2 = 0 \<and> d3 = 0"
    using l r unfolding b by (intro line_all_or_none) simp_all
  have c0: "a0 = 0 \<or> b0 = 0 \<or> c0 = 0 \<or> d0 = 0 \<Longrightarrow> a0 = 0 \<and> b0 = 0 \<and> c0 = 0 \<and> d0 = 0"
    using u d unfolding b rotate_ccw_explicit rotate_cw_explicit
    by (intro line_all_or_none) simp_all
  have c1: "a1 = 0 \<or> b1 = 0 \<or> c1 = 0 \<or> d1 = 0 \<Longrightarrow> a1 = 0 \<and> b1 = 0 \<and> c1 = 0 \<and> d1 = 0"
    using u d unfolding b rotate_ccw_explicit rotate_cw_explicit
    by (intro line_all_or_none) simp_all
  have c2: "a2 = 0 \<or> b2 = 0 \<or> c2 = 0 \<or> d2 = 0 \<Longrightarrow> a2 = 0 \<and> b2 = 0 \<and> c2 = 0 \<and> d2 = 0"
    using u d unfolding b rotate_ccw_explicit rotate_cw_explicit
    by (intro line_all_or_none) simp_all
  have c3: "a3 = 0 \<or> b3 = 0 \<or> c3 = 0 \<or> d3 = 0 \<Longrightarrow> a3 = 0 \<and> b3 = 0 \<and> c3 = 0 \<and> d3 = 0"
    using u d unfolding b rotate_ccw_explicit rotate_cw_explicit
    by (intro line_all_or_none) simp_all
  from z have "(a0 = 0 \<or> a1 = 0 \<or> a2 = 0 \<or> a3 = 0) \<or> (b0 = 0 \<or> b1 = 0 \<or> b2 = 0 \<or> b3 = 0) \<or>
     (c0 = 0 \<or> c1 = 0 \<or> c2 = 0 \<or> c3 = 0) \<or> (d0 = 0 \<or> d1 = 0 \<or> d2 = 0 \<or> d3 = 0)"
    unfolding b has_zero_explicit .
  then have row: "(a0 = 0 \<and> a1 = 0 \<and> a2 = 0 \<and> a3 = 0) \<or> (b0 = 0 \<and> b1 = 0 \<and> b2 = 0 \<and> b3 = 0) \<or>
     (c0 = 0 \<and> c1 = 0 \<and> c2 = 0 \<and> c3 = 0) \<or> (d0 = 0 \<and> d1 = 0 \<and> d2 = 0 \<and> d3 = 0)"
    using ra rb rc rd by blast
  then have "(a0 = 0 \<and> b0 = 0 \<and> c0 = 0 \<and> d0 = 0) \<and> (a1 = 0 \<and> b1 = 0 \<and> c1 = 0 \<and> d1 = 0) \<and>
     (a2 = 0 \<and> b2 = 0 \<and> c2 = 0 \<and> d2 = 0) \<and> (a3 = 0 \<and> b3 = 0 \<and> c3 = 0 \<and> d3 = 0)"
    using c0 c1 c2 c3 by blast
  with t show False unfolding b has_tile_explicit by blast
qed

lemma has_zero_iff: "has_zero b \<longleftrightarrow> (\<exists>row \<in> set b. 0 \<in> set row)"
  by (auto simp: has_zero_def list_ex_iff)

lemma has_tile_iff: "has_tile b \<longleftrightarrow> (\<exists>row \<in> set b. \<exists>x \<in> set row. x \<noteq> 0)"
  by (auto simp: has_tile_def list_ex_iff)

lemma has_zero_rev: "has_zero (map rev b) = has_zero b"
  by (simp add: has_zero_iff)

lemma has_tile_rev: "has_tile (map rev b) = has_tile b"
  by (simp add: has_tile_iff)

lemma has_zero_cw: "wf_board b \<Longrightarrow> has_zero (rotate_board_clockwise b) = has_zero b"
  by (drule wf_board_explicit) (auto simp: rotate_cw_explicit has_zero_explicit)

lemma has_tile_cw: "wf_board b \<Longrightarrow> has_tile (rotate_board_clockwise b) = has_tile b"
  by (drule wf_board_explicit) (auto simp: rotate_cw_explicit has_tile_explicit)

lemma has_zero_ccw: "wf_board b \<Longrightarrow> has_zero (rotate_board_counterclockwise b) = has_zero b"
  by (drule wf_board_explicit) (auto simp: rotate_ccw_explicit has_zero_explicit)

lemma has_tile_ccw: "wf_board b \<Longrightarrow> has_tile (rotate_board_counterclockwise b) = has_tile b"
  by (drule wf_board_explicit) (auto simp: rotate_ccw_explicit has_tile_explicit)

text \<open>Rows that changed leave an empty cell and a tile behind.\<close>

lemma rows_changed:
  assumes wf: "wf_board b" and ch: "map move_row_left b \<noteq> b"
  shows "has_zero (map move_row_left b) \<and> has_tile (map move_row_left b)"
proof -
  from ch obtain row where row: "row \<in> set b" "move_row_left row \<noteq> row"
    by (metis map_idI)
  have len: "length row = 4" using wf row(1) by (simp add: wf_board_def list_all_iff)
  have "0 \<in> set (move_row_left row)" using len row(2) by (rule move_row_left_changed_zero)
  moreover have "\<exists>x \<in> set (move_row_left row). x \<noteq> 0"
    using len row(2) by (rule move_row_left_changed_tile)
  ultimately show ?thesis using row(1) by (auto simp: has_zero_iff has_tile_iff)
qed


lemma left_moved:
  assumes wf: "wf_board b" and mv: "left b = Inr (True, b')"
  shows "wf_board b' \<and> has_zero b' \<and> has_tile b'"
proof -
  have ch: "map move_row_left b \<noteq> b" and b': "b' = map move_row_left b"
    using mv unfolding left_wf [OF wf] by auto
  show ?thesis unfolding b' using rows_changed [OF wf ch] wf_board_left [OF wf] by simp
qed

lemma right_moved:
  assumes wf: "wf_board b" and mv: "right b = Inr (True, b')"
  shows "wf_board b' \<and> has_zero b' \<and> has_tile b'"
proof -
  have w1: "wf_board (map rev b)" using wf by (rule wf_board_map) simp
  have ch: "map move_row_left (map rev b) \<noteq> map rev b"
    and b': "b' = map rev (map move_row_left (map rev b))"
    using mv unfolding right_wf [OF wf] by auto
  have "wf_board b'" unfolding b' using wf_board_left [OF w1] by (rule wf_board_map) simp
  then show ?thesis unfolding b' has_zero_rev has_tile_rev using rows_changed [OF w1 ch] by simp
qed

lemma up_moved:
  assumes wf: "wf_board b" and mv: "up b = Inr (True, b')"
  shows "wf_board b' \<and> has_zero b' \<and> has_tile b'"
proof -
  have w1: "wf_board (rotate_board_counterclockwise b)" using wf by (rule wf_rotate_ccw)
  have ch: "map move_row_left (rotate_board_counterclockwise b) \<noteq> rotate_board_counterclockwise b"
    and b': "b' = rotate_board_clockwise (map move_row_left (rotate_board_counterclockwise b))"
    using mv unfolding up_wf [OF wf] by auto
  have w2: "wf_board (map move_row_left (rotate_board_counterclockwise b))"
    using w1 by (rule wf_board_left)
  show ?thesis
    unfolding b' has_zero_cw [OF w2] has_tile_cw [OF w2]
    using rows_changed [OF w1 ch] wf_rotate_cw [OF w2] by simp
qed

lemma down_moved:
  assumes wf: "wf_board b" and mv: "down b = Inr (True, b')"
  shows "wf_board b' \<and> has_zero b' \<and> has_tile b'"
proof -
  have w1: "wf_board (rotate_board_clockwise b)" using wf by (rule wf_rotate_cw)
  have ch: "map move_row_left (rotate_board_clockwise b) \<noteq> rotate_board_clockwise b"
    and b': "b' = rotate_board_counterclockwise (map move_row_left (rotate_board_clockwise b))"
    using mv unfolding down_wf [OF wf] by auto
  have w2: "wf_board (map move_row_left (rotate_board_clockwise b))"
    using w1 by (rule wf_board_left)
  show ?thesis
    unfolding b' has_zero_ccw [OF w2] has_tile_ccw [OF w2]
    using rows_changed [OF w1 ch] wf_rotate_ccw [OF w2] by simp
qed

text \<open>The flags of the four moves on a board with an empty cell and a tile.\<close>

lemma movable:
  assumes wf: "wf_board b" and z: "has_zero b" and t: "has_tile b"
  shows "(\<exists>b'. up b = Inr (True, b')) \<or> (\<exists>b'. left b = Inr (True, b'))
       \<or> (\<exists>b'. down b = Inr (True, b')) \<or> (\<exists>b'. right b = Inr (True, b'))"
  using some_move_changes [OF wf z t] left_wf [OF wf] right_wf [OF wf] up_wf [OF wf]
    down_wf [OF wf]
  by auto

lemma entry_moved [simp]:
  "entry k (Inr (True, bc)) d =
     [(k, projr (get_points bc) +
        (if d > 1 then projr (max_values (evaluate_future_states bc (d - 1))) else 0))]"
  by (simp add: entry_def)

lemma entry_not_moved [simp]: "entry k (Inr (False, bc)) d = []"
  by (simp add: entry_def)

lemma entries_nonempty:
  assumes "(\<exists>b'. up b = Inr (True, b')) \<or> (\<exists>b'. left b = Inr (True, b'))
       \<or> (\<exists>b'. down b = Inr (True, b')) \<or> (\<exists>b'. right b = Inr (True, b'))"
  shows "entries b d \<noteq> []"
  using assms by (auto simp: entries_def)

lemma branch_entry:
  assumes gp: "get_points bc = Inr p"
    and fut: "moved \<Longrightarrow> 1 < d \<Longrightarrow> \<exists>x. max_values (evaluate_future_states bc (d - 1)) = Inr x"
  shows "branch k (Inr (moved, bc)) d acc = Inr (acc @ entry k (Inr (moved, bc)) d)"
proof (cases moved)
  case False
  then show ?thesis by (simp add: branch_def)
next
  case True
  show ?thesis
  proof (cases "1 < d")
    case d: True
    obtain x where "max_values (evaluate_future_states bc (d - 1)) = Inr x"
      using fut [OF True d] by blast
    then show ?thesis using True d by (simp add: branch_def record_score_def gp)
  next
    case False
    then show ?thesis using True by (simp add: branch_def record_score_def gp)
  qed
qed

lemma evaluate_unfold:
  assumes "d \<noteq> 0"
  shows "evaluate_future_states b d =
     (case branch (CHR ''w'') (up b) d [] of Inl e \<Rightarrow> Inl e | Inr s1 \<Rightarrow>
      (case branch (CHR ''a'') (left b) d s1 of Inl e \<Rightarrow> Inl e | Inr s2 \<Rightarrow>
       (case branch (CHR ''s'') (down b) d s2 of Inl e \<Rightarrow> Inl e | Inr s3 \<Rightarrow>
        (case branch (CHR ''d'') (right b) d s3 of Inl e \<Rightarrow> Inl e | Inr s4 \<Rightarrow>
           Inr (Scores s4)))))"
  by (subst evaluate_future_states.simps, unfold branch_def, simp add: assms)

lemma max_values_nonempty: "ms \<noteq> [] \<Longrightarrow> \<exists>x. max_values (Inr (Scores ms)) = Inr x"
  by (cases ms) simp_all

lemma branch_move:
  assumes res: "res = Inr (m, bc)" and wbc: "wf_board bc" and sbc: "small_board bc"
    and moved: "m \<Longrightarrow> has_zero bc \<and> has_tile bc"
    and IH: "\<And>b'. 1 < d \<Longrightarrow> wf_board b' \<Longrightarrow> small_board b' \<Longrightarrow>
               evaluate_future_states b' (d - 1) = Inr (Scores (entries b' (d - 1)))"
  shows "branch k res d acc = Inr (acc @ entry k res d)"
proof -
  obtain p where gp: "get_points bc = Inr p"
    using get_points_wf [OF wbc small_no_overflow [OF sbc]] by blast
  have fut: "\<exists>x. max_values (evaluate_future_states bc (d - 1)) = Inr x" if m: m and d: "1 < d"
  proof -
    have zt: "has_zero bc" "has_tile bc" using moved [OF m] by simp_all
    have ne: "entries bc (d - 1) \<noteq> []"
      by (rule entries_nonempty [OF movable [OF wbc zt]])
    show ?thesis
      unfolding IH [OF d wbc sbc] by (rule max_values_nonempty [OF ne])
  qed
  show ?thesis unfolding res by (rule branch_entry [OF gp fut])
qed

text \<open>
  One level of the search: when the calls below return their dictionaries, the call returns
  the dictionary of the entries of the legal directions.
\<close>

lemma evaluate_step:
  assumes wf: "wf_board b" and sm: "small_board b" and d: "d \<noteq> 0"
    and IH: "\<And>b'. 1 < d \<Longrightarrow> wf_board b' \<Longrightarrow> small_board b' \<Longrightarrow>
               evaluate_future_states b' (d - 1) = Inr (Scores (entries b' (d - 1)))"
  shows "evaluate_future_states b d = Inr (Scores (entries b d))"
proof -
  obtain mu bu where u: "up b = Inr (mu, bu)" and wu: "wf_board bu"
    and su: "board_mass bu = board_mass b"
    using up_changed [OF wf] by blast
  obtain ml bl where l: "left b = Inr (ml, bl)" and wl: "wf_board bl"
    and sl: "board_mass bl = board_mass b"
    using left_changed [OF wf] by blast
  obtain md bd where dn: "down b = Inr (md, bd)" and wd: "wf_board bd"
    and sd: "board_mass bd = board_mass b"
    using down_changed [OF wf] by blast
  obtain mr br where r: "right b = Inr (mr, br)" and wr: "wf_board br"
    and sr: "board_mass br = board_mass b"
    using right_changed [OF wf] by blast
  have small: "small_board bu" "small_board bl" "small_board bd" "small_board br"
    using sm by (simp_all add: small_board_def su sl sd sr)
  have zu: "has_zero bu \<and> has_tile bu" if mu using up_moved [OF wf, of bu] u that by simp
  have zl: "has_zero bl \<and> has_tile bl" if ml using left_moved [OF wf, of bl] l that by simp
  have zd: "has_zero bd \<and> has_tile bd" if md using down_moved [OF wf, of bd] dn that by simp
  have zr: "has_zero br \<and> has_tile br" if mr using right_moved [OF wf, of br] r that by simp
  have 1: "branch (CHR ''w'') (up b) d [] = Inr ([] @ entry (CHR ''w'') (up b) d)"
    by (rule branch_move [OF u wu small(1) zu IH])
  have 2: "branch (CHR ''a'') (left b) d acc = Inr (acc @ entry (CHR ''a'') (left b) d)" for acc
    by (rule branch_move [OF l wl small(2) zl IH])
  have 3: "branch (CHR ''s'') (down b) d acc = Inr (acc @ entry (CHR ''s'') (down b) d)" for acc
    by (rule branch_move [OF dn wd small(3) zd IH])
  have 4: "branch (CHR ''d'') (right b) d acc = Inr (acc @ entry (CHR ''d'') (right b) d)" for acc
    by (rule branch_move [OF r wr small(4) zr IH])
  show ?thesis
    unfolding evaluate_unfold [OF d] 1 sum.case 2 3 4 entries_def by simp
qed

lemma evaluate_entries_pos:
  "1 \<le> d \<Longrightarrow> \<forall>b. wf_board b \<longrightarrow> small_board b \<longrightarrow>
     evaluate_future_states b d = Inr (Scores (entries b d))"
proof (induction d rule: int_ge_induct)
  case base
  show ?case
  proof (intro allI impI)
    fix b :: board assume wf: "wf_board b" and sm: "small_board b"
    show "evaluate_future_states b 1 = Inr (Scores (entries b 1))"
      by (rule evaluate_step [OF wf sm]) simp_all
  qed
next
  case (step i)
  show ?case
  proof (intro allI impI)
    fix b :: board assume wf: "wf_board b" and sm: "small_board b"
    have nz: "i + 1 \<noteq> 0" using step.hyps by simp
    have IH: "evaluate_future_states b' (i + 1 - 1) = Inr (Scores (entries b' (i + 1 - 1)))"
      if "wf_board b'" "small_board b'" for b' using step.IH that by simp
    show "evaluate_future_states b (i + 1) = Inr (Scores (entries b (i + 1)))"
      by (rule evaluate_step [OF wf sm nz IH])
  qed
qed

text \<open>
  On a 4x4 board that stays free of overflow the search returns, at every depth other
  than 0, its dictionary.
\<close>

lemma evaluate_entries:
  assumes "wf_board b" "small_board b" "d \<noteq> 0"
  shows "evaluate_future_states b d = Inr (Scores (entries b d))"
proof (cases "1 \<le> d")
  case True
  then show ?thesis using evaluate_entries_pos assms(1,2) by blast
next
  case False
  show ?thesis
    by (rule evaluate_step [OF assms]) (use False in simp_all)
qed


lemma move_of_changed:
  assumes wf: "wf_board b"
  shows "\<exists>b'. move_of k b = Inr (b' \<noteq> b, b') \<and> wf_board b' \<and> board_mass b' = board_mass b"
  using up_changed [OF wf] left_changed [OF wf] down_changed [OF wf] right_changed [OF wf]
  by (simp add: move_of_def)

lemma move_of_moved:
  assumes wf: "wf_board b" and mv: "move_of k b = Inr (True, b')"
  shows "wf_board b' \<and> has_zero b' \<and> has_tile b' \<and> board_mass b' = board_mass b"
proof -
  have "board_mass b' = board_mass b" using move_of_changed [OF wf, of k] mv by auto
  then show ?thesis
    using mv up_moved [OF wf, of b'] left_moved [OF wf, of b'] down_moved [OF wf, of b']
      right_moved [OF wf, of b']
    by (auto simp: move_of_def split: if_splits)
qed

lemma move_of_movable:
  assumes wf: "wf_board b" and z: "has_zero b" and t: "has_tile b"
  shows "\<exists>k \<in> set ''wasd''. \<exists>b'. move_of k b = Inr (True, b')"
  using movable [OF wf z t] by (auto simp: move_of_def)

lemma tile_value_simps: "tile_value 0" "tile_value 2" "tile_value 4"
proof -
  show "tile_value 0" by (simp add: tile_value_def)
  have "(1::nat) \<in> {1 .. nat 2}" "(2::int) = 2 ^ 1" by simp_all
  then show "tile_value 2" unfolding tile_value_def by blast
  have "(2::nat) \<in> {1 .. nat 4}" "(4::int) = 2 ^ 2" by simp_all
  then show "tile_value 4" unfolding tile_value_def by blast
qed

lemma valid_tiles_mixed: "valid_tiles board_mixed"
  by (simp add: valid_tiles_def board_mixed_def tile_value_simps)


lemma tile_value_nonneg: "tile_value x \<Longrightarrow> 0 \<le> x"
  by (auto simp: tile_value_def)

lemma valid_tiles_mass:
  assumes "valid_tiles b"
  shows "board_mass b = board_sum b"
proof -
  have "map abs row = row" if "row \<in> set b" for row
    using assms that by (intro map_idI) (auto simp: valid_tiles_def list_all_iff tile_value_nonneg)
  then show ?thesis by (simp add: board_mass_def board_sum_def cong: map_cong)
qed

lemma board_sum_mixed: "board_sum board_mixed \<le> 2 ^ 1032"
proof -
  have "(2::int) ^ 4 \<le> 2 ^ 1032" by (rule power_increasing) simp_all
  then show ?thesis by (simp add: board_sum_def board_mixed_def)
qed

lemma board_mass_mixed: "board_mass board_mixed \<le> 2 ^ 1032"
  using board_sum_mixed valid_tiles_mass [OF valid_tiles_mixed] by simp

text \<open>The board that holds the tile too large for \<^verbatim>\<open>normalize\<close>.\<close>

lemma big_tile_facts: "big_tile \<noteq> 0" "0 < big_tile" "float_limit \<le> \<bar>big_tile\<bar>"
proof -
  show "0 < big_tile" by (simp add: big_tile_def)
  then show "big_tile \<noteq> 0" by simp
  have "(2::int) ^ 1035 \<le> 2 ^ 1040" by (rule power_increasing) simp_all
  moreover have "float_limit \<le> 2 ^ 1035" by (simp add: float_limit_def)
  ultimately show "float_limit \<le> \<bar>big_tile\<bar>" by (simp add: big_tile_def)
qed

lemma tile_value_big: "tile_value big_tile"
proof -
  have "(1040::nat) < 2 ^ 1040" by (rule less_exp)
  moreover have "nat big_tile = 2 ^ 1040" by (simp add: big_tile_def nat_power_eq)
  ultimately have "(1040::nat) \<in> {1 .. nat big_tile}" by simp
  then show ?thesis unfolding tile_value_def using big_tile_def by blast
qed

lemma board_big_props: "wf_board board_big" "valid_tiles board_big" "wf_board board_big_down"
  by (simp_all add: wf_board_def valid_tiles_def board_big_def board_big_down_def
      tile_value_big tile_value_simps)

lemma cell_points_big: "cell_points big_tile 0 0 0 0 = Inl OverflowError"
  by (simp add: cell_points_def normalize_tile_def big_tile_facts)

lemma create_points_big: "create_points board_big = Inl OverflowError"
  by (simp add: create_points_def for_each_range4 points_step_def cell_def py_get_def
      nb_left_def nb_right_def nb_up_def nb_down_def board_big_def big_tile_facts
      cell_points_big)

lemma create_points_big_down: "create_points board_big_down = Inl OverflowError"
  by (simp add: create_points_def for_each_range4 points_step_def cell_def py_get_def
      nb_left_def nb_right_def nb_up_def nb_down_def board_big_down_def big_tile_facts
      cell_points_big)

lemma get_points_big:
  "get_points board_big = Inl OverflowError" "get_points board_big_down = Inl OverflowError"
proof -
  obtain z t where "count_cells board_big 0 = Inr z" "count_cells board_big 2 = Inr t"
    using count_cells_wf [OF board_big_props(1)] by blast
  then show "get_points board_big = Inl OverflowError"
    by (simp add: get_points_def create_points_big)
  obtain z t where "count_cells board_big_down 0 = Inr z" "count_cells board_big_down 2 = Inr t"
    using count_cells_wf [OF board_big_props(3)] by blast
  then show "get_points board_big_down = Inl OverflowError"
    by (simp add: get_points_def create_points_big_down)
qed

lemma move_row_left_big:
  "move_row_left [0, 0, 0, 0] = [0, 0, 0, 0]"
  "move_row_left [big_tile, 0, 0, 0] = [big_tile, 0, 0, 0]"
  "move_row_left [0, 0, 0, big_tile] = [big_tile, 0, 0, 0]"
  by (simp_all add: move_row_left_tiles big_tile_facts numeral_eq_Suc)

lemma moves_big:
  "up board_big = Inr (False, board_big)"
  "left board_big = Inr (False, board_big)"
  "down board_big = Inr (True, board_big_down)"
proof -
  show "up board_big = Inr (False, board_big)"
    unfolding up_wf [OF board_big_props(1)]
    by (simp add: board_big_def rotate_ccw_explicit rotate_cw_explicit move_row_left_big)
  show "left board_big = Inr (False, board_big)"
    unfolding left_wf [OF board_big_props(1)]
    by (simp add: board_big_def move_row_left_big)
  show "down board_big = Inr (True, board_big_down)"
    unfolding down_wf [OF board_big_props(1)]
    by (simp add: board_big_def board_big_down_def rotate_ccw_explicit rotate_cw_explicit
        move_row_left_big big_tile_facts)
qed

lemma evaluate_big: "d \<noteq> 0 \<Longrightarrow> evaluate_future_states board_big d = Inl OverflowError"
  by (simp add: evaluate_unfold moves_big branch_def record_score_def get_points_big)

lemma evaluate_big_0: "evaluate_future_states board_big 0 = Inl OverflowError"
  by (subst evaluate_future_states.simps) (simp add: get_points_big)

text \<open>
  C3, as the code has it. For every 4x4 board whose cells are 0 or powers of two that are
  at least 2 and sum to at most \<open>2 ^ 1032\<close>, and every depth of at least 1, the search
  returns a dictionary and raises nothing; whenever the depth exceeds 1 and the move of a
  direction reports a change, the call on the moved board returns a non-empty dictionary,
  so \<^verbatim>\<open>max\<close> is never applied to an empty collection; a board just changed by a move
  admits a further move.
\<close>

theorem search_never_raises:
  assumes wf: "wf_board b" and tiles: "valid_tiles b" and bound: "board_sum b \<le> 2 ^ 1032"
    and depth: "1 \<le> depth"
  shows "(\<exists>move_scores. evaluate_future_states b depth = Inr (Scores move_scores))
       \<and> (\<forall>k \<in> set ''wasd''. \<forall>b'. 1 < depth \<longrightarrow> move_of k b = Inr (True, b') \<longrightarrow>
            (\<exists>move_scores. evaluate_future_states b' (depth - 1) = Inr (Scores move_scores)
               \<and> move_scores \<noteq> []))
       \<and> (\<forall>k \<in> set ''wasd''. \<forall>b'. move_of k b = Inr (True, b') \<longrightarrow>
            (\<exists>k' \<in> set ''wasd''. \<exists>b''. move_of k' b' = Inr (True, b'')))"
proof (intro conjI ballI allI impI)
  have sm: "small_board b"
    using bound valid_tiles_mass [OF tiles] by (intro small_bound) simp
  show "\<exists>move_scores. evaluate_future_states b depth = Inr (Scores move_scores)"
    using evaluate_entries [OF wf sm, of depth] depth by simp
  fix k b' assume mv: "move_of k b = Inr (True, b')"
  have b': "wf_board b'" "has_zero b'" "has_tile b'" and m: "board_mass b' = board_mass b"
    using move_of_moved [OF wf mv] by simp_all
  show "\<exists>k' \<in> set ''wasd''. \<exists>b''. move_of k' b' = Inr (True, b'')"
    by (rule move_of_movable [OF b'])
  assume d: "1 < depth"
  have sm': "small_board b'" using sm m by (simp add: small_board_def)
  have "entries b' (depth - 1) \<noteq> []"
    by (rule entries_nonempty [OF movable [OF b']])
  moreover have "evaluate_future_states b' (depth - 1) = Inr (Scores (entries b' (depth - 1)))"
    using d by (intro evaluate_entries b' sm') simp
  ultimately show "\<exists>move_scores. evaluate_future_states b' (depth - 1) = Inr (Scores move_scores)
               \<and> move_scores \<noteq> []"
    by blast
qed

theorem search_never_raises_witness:
  "wf_board board_mixed \<and> valid_tiles board_mixed \<and> board_sum board_mixed \<le> 2 ^ 1032
   \<and> (1::int) \<le> 3
   \<and> (\<exists>move_scores. evaluate_future_states board_mixed 3 = Inr (Scores move_scores))
   \<and> move_of (CHR ''a'') board_mixed
       = Inr (True, [[2, 0, 0, 0], [4, 8, 0, 0], [2, 0, 0, 0], [0, 0, 0, 0]])
   \<and> (\<exists>move_scores.
         evaluate_future_states [[2, 0, 0, 0], [4, 8, 0, 0], [2, 0, 0, 0], [0, 0, 0, 0]] (3 - 1)
           = Inr (Scores move_scores) \<and> move_scores \<noteq> [])
   \<and> (\<exists>k' b''. move_of k' [[2, 0, 0, 0], [4, 8, 0, 0], [2, 0, 0, 0], [0, 0, 0, 0]]
         = Inr (True, b''))"
proof -
  have d: "(1::int) \<le> 3" "(1::int) < 3" by simp_all
  have k: "CHR ''a'' \<in> set ''wasd''" by simp
  have mv: "move_of (CHR ''a'') board_mixed
       = Inr (True, [[2, 0, 0, 0], [4, 8, 0, 0], [2, 0, 0, 0], [0, 0, 0, 0]])"
    by (simp add: move_of_def board_mixed_def left_rows move_row_left_tiles numeral_eq_Suc)
  show ?thesis
    using search_never_raises [OF wf_board_mixed valid_tiles_mixed board_sum_mixed d(1)]
      wf_board_mixed valid_tiles_mixed board_sum_mixed d k mv
    by blast
qed

text \<open>
  C3, as stated, fails on \<open>board_big\<close>, whose cells are 0 and the power of two
  \<open>2 ^ 1040\<close>: at depth 1 the move down changes the board, and the heuristic of the moved
  board raises \<^verbatim>\<open>OverflowError\<close> in \<^verbatim>\<open>normalize\<close>.
\<close>

theorem search_never_raises_counterexample:
  "wf_board board_big \<and> valid_tiles board_big \<and> (1::int) \<le> 1
   \<and> down board_big = Inr (True, board_big_down)
   \<and> get_points board_big_down = Inl OverflowError
   \<and> evaluate_future_states board_big 1 = Inl OverflowError"
  using board_big_props moves_big get_points_big evaluate_big [of 1] by simp

lemma py_max_Max: "xs \<noteq> [] \<Longrightarrow> py_max xs = Inr (Max (set xs))"
proof (cases xs)
  case Nil
  assume "xs \<noteq> []"
  with Nil show ?thesis by simp
next
  case (Cons x rest)
  show ?thesis unfolding Cons py_max.simps Max.set_eq_fold ..
qed

lemma max_values_Max:
  "ms \<noteq> [] \<Longrightarrow> max_values (Inr (Scores ms)) = Inr (Max (snd ` set ms))"
  by (simp add: py_max_Max)


text \<open>What the entry of a direction holds.\<close>

lemma entry_value:
  assumes wbc: "wf_board bc" and sbc: "small_board bc" and zt: "has_zero bc \<and> has_tile bc"
  shows "\<exists>s p. entry k (Inr (True, bc)) d = [(k, s)] \<and> get_points bc = Inr p
           \<and> (if 1 < d
               then \<exists>ms. evaluate_future_states bc (d - 1) = Inr (Scores ms) \<and> ms \<noteq> []
                      \<and> s = p + Max (snd ` set ms)
               else s = p)"
proof -
  obtain p where gp: "get_points bc = Inr p"
    using get_points_wf [OF wbc small_no_overflow [OF sbc]] by blast
  show ?thesis
  proof (cases "1 < d")
    case False
    then show ?thesis by (simp add: gp)
  next
    case True
    have ne: "entries bc (d - 1) \<noteq> []"
      using zt by (intro entries_nonempty movable wbc) simp_all
    have ev: "evaluate_future_states bc (d - 1) = Inr (Scores (entries bc (d - 1)))"
      using True by (intro evaluate_entries wbc sbc) simp
    show ?thesis
      using True ne by (simp add: gp ev max_values_Max del: max_values.simps)
  qed
qed

lemma entry_keys:
  "map fst (entry k (Inr (m, bc)) d) = (if m then [k] else [])"
  by (cases m) simp_all

lemma entries_keys:
  assumes wf: "wf_board b"
  shows "map fst (entries b d) = filter (\<lambda>k. changes k b) ''wasd''"
proof -
  obtain bu where u: "up b = Inr (bu \<noteq> b, bu)" using up_changed [OF wf] by blast
  obtain bl where l: "left b = Inr (bl \<noteq> b, bl)" using left_changed [OF wf] by blast
  obtain bd where dn: "down b = Inr (bd \<noteq> b, bd)" using down_changed [OF wf] by blast
  obtain br where r: "right b = Inr (br \<noteq> b, br)" using right_changed [OF wf] by blast
  show ?thesis
    by (simp add: entries_def u l dn r entry_keys changes_def move_of_def)
qed

lemma entries_values:
  assumes wf: "wf_board b" and sm: "small_board b" and mem: "(k, s) \<in> set (entries b d)"
  shows "\<exists>b' p. move_of k b = Inr (True, b') \<and> b' \<noteq> b \<and> get_points b' = Inr p
           \<and> (if 1 < d
               then \<exists>ms. evaluate_future_states b' (d - 1) = Inr (Scores ms) \<and> ms \<noteq> []
                      \<and> s = p + Max (snd ` set ms)
               else s = p)"
proof -
  have one: "\<exists>b' p. res = Inr (True, b') \<and> b' \<noteq> b \<and> get_points b' = Inr p
           \<and> (if 1 < d
               then \<exists>ms. evaluate_future_states b' (d - 1) = Inr (Scores ms) \<and> ms \<noteq> []
                      \<and> s = p + Max (snd ` set ms)
               else s = p)"
    if res: "res = Inr (bc \<noteq> b, bc)" and wbc: "wf_board bc"
      and mbc: "board_mass bc = board_mass b"
      and zt: "bc \<noteq> b \<Longrightarrow> has_zero bc \<and> has_tile bc"
      and m: "(k', s) \<in> set (entry k' res d)" for res bc k'
  proof (cases "bc \<noteq> b")
    case False
    then show ?thesis using m res by simp
  next
    case True
    have sbc: "small_board bc" using sm mbc by (simp add: small_board_def)
    obtain s' p where e: "entry k' (Inr (True, bc)) d = [(k', s')]" and gp: "get_points bc = Inr p"
      and v: "if 1 < d
               then \<exists>ms. evaluate_future_states bc (d - 1) = Inr (Scores ms) \<and> ms \<noteq> []
                      \<and> s' = p + Max (snd ` set ms)
               else s' = p"
      using entry_value [OF wbc sbc zt [OF True], of k' d] by blast
    have "s' = s" using m e True res by simp
    then show ?thesis using True res gp v by auto
  qed
  obtain bu where u: "up b = Inr (bu \<noteq> b, bu)" and wu: "wf_board bu"
    and su: "board_mass bu = board_mass b"
    using up_changed [OF wf] by blast
  obtain bl where l: "left b = Inr (bl \<noteq> b, bl)" and wl: "wf_board bl"
    and sl: "board_mass bl = board_mass b"
    using left_changed [OF wf] by blast
  obtain bd where dn: "down b = Inr (bd \<noteq> b, bd)" and wd: "wf_board bd"
    and sd: "board_mass bd = board_mass b"
    using down_changed [OF wf] by blast
  obtain br where r: "right b = Inr (br \<noteq> b, br)" and wr: "wf_board br"
    and sr: "board_mass br = board_mass b"
    using right_changed [OF wf] by blast
  have zu: "has_zero bu \<and> has_tile bu" if "bu \<noteq> b" using up_moved [OF wf, of bu] u that by simp
  have zl: "has_zero bl \<and> has_tile bl" if "bl \<noteq> b" using left_moved [OF wf, of bl] l that by simp
  have zd: "has_zero bd \<and> has_tile bd" if "bd \<noteq> b" using down_moved [OF wf, of bd] dn that by simp
  have zr: "has_zero br \<and> has_tile br" if "br \<noteq> b" using right_moved [OF wf, of br] r that by simp
  have key: "\<And>k' res. (k, s) \<in> set (entry k' res d) \<Longrightarrow> k' = k"
    by (auto simp: entry_def split: sum.splits if_splits)
  from mem consider
      (w) "(k, s) \<in> set (entry (CHR ''w'') (up b) d)"
    | (a) "(k, s) \<in> set (entry (CHR ''a'') (left b) d)"
    | (s) "(k, s) \<in> set (entry (CHR ''s'') (down b) d)"
    | (d) "(k, s) \<in> set (entry (CHR ''d'') (right b) d)"
    by (auto simp: entries_def)
  then show ?thesis
  proof cases
    case w
    then have k: "k = CHR ''w''" using key by blast
    show ?thesis using one [OF u wu su zu] w unfolding k by (simp add: move_of_def)
  next
    case a
    then have k: "k = CHR ''a''" using key by blast
    show ?thesis using one [OF l wl sl zl] a unfolding k by (simp add: move_of_def)
  next
    case s
    then have k: "k = CHR ''s''" using key by blast
    show ?thesis using one [OF dn wd sd zd] s unfolding k by (simp add: move_of_def)
  next
    case d
    then have k: "k = CHR ''d''" using key by blast
    show ?thesis using one [OF r wr sr zr] d unfolding k by (simp add: move_of_def)
  qed
qed


lemma evaluate_depth_0:
  assumes "wf_board b" "no_overflow b"
  shows "\<exists>p. get_points b = Inr p \<and> evaluate_future_states b 0 = Inr (Score p)"
proof -
  obtain p where "get_points b = Inr p" using get_points_wf [OF assms] by blast
  then show ?thesis by (subst evaluate_future_states.simps) simp
qed

text \<open>
  C4, as the code has it. For every 4x4 board whose cells have absolute values that sum to
  at most \<open>2 ^ 1032\<close> and every depth of at least 1, the search returns a dictionary
  whose keys are exactly the directions whose move changes the board, in the order
  \<open>w\<close>, \<open>a\<close>, \<open>s\<close>, \<open>d\<close>; each key is mapped to the heuristic of the moved board plus,
  when the depth exceeds 1, the maximum of the values that the search returns on the moved
  board one level lower, and plus nothing at depth 1. At depth 0 the search returns the
  heuristic of the board as a bare score.
\<close>

theorem search_result:
  assumes wf: "wf_board b" and bound: "board_mass b \<le> 2 ^ 1032" and depth: "1 \<le> depth"
  shows "(\<exists>move_scores. evaluate_future_states b depth = Inr (Scores move_scores)
           \<and> map fst move_scores = filter (\<lambda>k. changes k b) ''wasd''
           \<and> (\<forall>(k, s) \<in> set move_scores.
                \<exists>b' p. move_of k b = Inr (True, b') \<and> b' \<noteq> b \<and> get_points b' = Inr p
                  \<and> (if 1 < depth
                      then \<exists>ms. evaluate_future_states b' (depth - 1) = Inr (Scores ms)
                             \<and> ms \<noteq> [] \<and> s = p + Max (snd ` set ms)
                      else s = p)))
       \<and> (\<exists>p. get_points b = Inr p \<and> evaluate_future_states b 0 = Inr (Score p))"
proof -
  have sm: "small_board b" using bound by (rule small_bound)
  have ev: "evaluate_future_states b depth = Inr (Scores (entries b depth))"
    using depth by (intro evaluate_entries wf sm) simp
  have keys: "map fst (entries b depth) = filter (\<lambda>k. changes k b) ''wasd''"
    by (rule entries_keys [OF wf])
  have vals: "\<forall>(k, s) \<in> set (entries b depth).
                \<exists>b' p. move_of k b = Inr (True, b') \<and> b' \<noteq> b \<and> get_points b' = Inr p
                  \<and> (if 1 < depth
                      then \<exists>ms. evaluate_future_states b' (depth - 1) = Inr (Scores ms)
                             \<and> ms \<noteq> [] \<and> s = p + Max (snd ` set ms)
                      else s = p)"
    using entries_values [OF wf sm] by blast
  show ?thesis
    using ev keys vals evaluate_depth_0 [OF wf small_no_overflow [OF sm]] by blast
qed

theorem search_result_witness:
  "wf_board board_mixed \<and> board_mass board_mixed \<le> 2 ^ 1032 \<and> (1::int) \<le> 2
   \<and> (\<exists>move_scores. evaluate_future_states board_mixed 2 = Inr (Scores move_scores)
           \<and> map fst move_scores = filter (\<lambda>k. changes k board_mixed) ''wasd''
           \<and> (\<forall>(k, s) \<in> set move_scores.
                \<exists>b' p. move_of k board_mixed = Inr (True, b') \<and> b' \<noteq> board_mixed
                  \<and> get_points b' = Inr p
                  \<and> (if (1::int) < 2
                      then \<exists>ms. evaluate_future_states b' (2 - 1) = Inr (Scores ms)
                             \<and> ms \<noteq> [] \<and> s = p + Max (snd ` set ms)
                      else s = p)))
   \<and> (\<exists>p. get_points board_mixed = Inr p
         \<and> evaluate_future_states board_mixed 0 = Inr (Score p))"
proof -
  have d: "(1::int) \<le> 2" by simp
  show ?thesis
    using search_result [OF wf_board_mixed board_mass_mixed d] wf_board_mixed
      board_mass_mixed d
    by blast
qed

text \<open>
  C4, as stated, fails on \<open>board_big\<close>: at depth 2 the search raises
  \<^verbatim>\<open>OverflowError\<close> although the move down changes the board, and at depth 0 it raises
  too, where the claim has a dictionary and a bare score.
\<close>

theorem search_result_counterexample:
  "wf_board board_big \<and> (1::int) \<le> 2 \<and> changes (CHR ''s'') board_big
   \<and> evaluate_future_states board_big 2 = Inl OverflowError
   \<and> evaluate_future_states board_big 0 = Inl OverflowError"
proof -
  have "board_big_down \<noteq> board_big"
    by (simp add: board_big_def board_big_down_def big_tile_facts)
  then have "changes (CHR ''s'') board_big"
    by (simp add: changes_def move_of_def moves_big)
  then show ?thesis
    using board_big_props evaluate_big [of 2] evaluate_big_0 by simp
qed















end
